theory Spec2Isabelle
  imports Complex_Main "HOL-Library.Word" "HOL-Library.Sublist" "HOL-Library.Log_Nat"
begin

section \<open>The image normalizer: \<open>preprocessImage\<close>\<close>

text \<open>
  The canvas is its width, its height and the byte array \<open>imageData.data\<close>
  (a \<open>Uint8ClampedArray\<close>, four bytes per pixel: R, G, B, A). A read beyond
  the end of an array is \<open>undefined\<close> in the source, here \<open>None\<close>; a write beyond
  the end of a typed array is dropped, as \<open>list_update\<close> does.

  JavaScript numbers are IEEE doubles. A double is modelled by the rational number it
  stands for, and every operation on doubles rounds its exact result to 53 significant
  bits, to the nearest double, a tie to the one with an even significand. The counts and
  sums of the histogram are integers far below \<open>2\<^sup>5\<^sup>3\<close>, which doubles hold exactly:
  they are \<open>int\<close>. No number of the normalizer comes near the largest or the smallest
  double, so the range of the exponent is not modelled.
\<close>

definition round_half_even :: "rat \<Rightarrow> int" where
  "round_half_even x =
     (let f = \<lfloor>x\<rfloor> in
      if of_int f + 1 / 2 < x then f + 1
      else if x < of_int f + 1 / 2 then f
      else if even f then f else f + 1)"

text \<open>The binary exponent of a positive number: \<open>2 powi exponent x \<le> x < 2 powi (exponent x + 1)\<close>.\<close>

definition exponent :: "rat \<Rightarrow> int" where
  "exponent x =
     (case quotient_of x of (a, b) \<Rightarrow>
        let k = bitlen a - bitlen b in if 2 powi k \<le> x then k else k - 1)"

text \<open>Rounding to the nearest double.\<close>

definition double :: "rat \<Rightarrow> rat" where
  "double x =
     (if x = 0 then 0
      else let q = 2 powi (exponent \<bar>x\<bar> - 52)
           in sgn x * of_int (round_half_even (\<bar>x\<bar> / q)) * q)"

definition dadd :: "rat \<Rightarrow> rat \<Rightarrow> rat" where
  "dadd a b = double (a + b)"

definition dsub :: "rat \<Rightarrow> rat \<Rightarrow> rat" where
  "dsub a b = double (a - b)"

definition dmul :: "rat \<Rightarrow> rat \<Rightarrow> rat" where
  "dmul a b = double (a * b)"

definition ddiv :: "rat \<Rightarrow> rat \<Rightarrow> rat" where
  "ddiv a b = double (a / b)"

record canvas =
  width :: nat
  height :: nat
  data :: "8 word list"

text \<open>Storing a number into a \<open>Uint8ClampedArray\<close>: clamp to 0..255, round to the
  nearest integer, a tie to the even one.\<close>

definition toUint8Clamp :: "rat \<Rightarrow> 8 word" where
  "toUint8Clamp x =
     (if x \<le> 0 then 0
      else if 255 \<le> x then 255
      else let f = \<lfloor>x\<rfloor> in
        if of_int f + 1 / 2 < x then word_of_int (f + 1)
        else if x < of_int f + 1 / 2 then word_of_int f
        else if even f then word_of_int f else word_of_int (f + 1))"

text \<open>\<open>0.299 * data[i] + 0.587 * data[i + 1] + 0.114 * data[i + 2]\<close>: the three literals
  are doubles, the products and the two sums round.\<close>

definition grayscale :: "8 word \<Rightarrow> 8 word \<Rightarrow> 8 word \<Rightarrow> rat" where
  "grayscale r g b =
     dadd (dadd (dmul (double (299 / 1000)) (of_nat (unat r)))
                (dmul (double (587 / 1000)) (of_nat (unat g))))
          (dmul (double (114 / 1000)) (of_nat (unat b)))"

text \<open>Step 1, \<open>for (i = 0; i < data.length; i += 4)\<close>. A last group of fewer than
  three bytes reads \<open>undefined\<close>, the luminance is NaN and the bytes written are 0.\<close>

fun grayscale_pass :: "8 word list \<Rightarrow> 8 word list" where
  "grayscale_pass (r # g # b # a # rest) =
     (let y = toUint8Clamp (grayscale r g b) in y # y # y # a # grayscale_pass rest)"
| "grayscale_pass [r, g, b] = (let y = toUint8Clamp (grayscale r g b) in [y, y, y])"
| "grayscale_pass [r, g] = [0, 0]"
| "grayscale_pass [r] = [0]"
| "grayscale_pass [] = []"

text \<open>Step 2, \<open>histogram[Math.floor(data[i])]++\<close> for every fourth byte.\<close>

fun build_histogram :: "8 word list \<Rightarrow> nat list \<Rightarrow> nat list" where
  "build_histogram (r # g # b # a # rest) h =
     build_histogram rest (h[unat r := h ! unat r + 1])"
| "build_histogram [r, g, b] h = h[unat r := h ! unat r + 1]"
| "build_histogram [r, g] h = h[unat r := h ! unat r + 1]"
| "build_histogram [r] h = h[unat r := h ! unat r + 1]"
| "build_histogram [] h = h"

definition histogram_of :: "8 word list \<Rightarrow> nat list" where
  "histogram_of d = build_histogram d (replicate 256 0)"

text \<open>Step 3, Otsu's method. \<open>weighted_sum\<close> is the first loop; \<open>otsu_loop\<close> is the
  scan over \<open>t\<close> with its \<open>continue\<close> and \<open>break\<close>.\<close>

definition weighted_sum :: "nat list \<Rightarrow> int" where
  "weighted_sum h = (\<Sum>i\<leftarrow>[0..<256]. int i * int (h ! i))"

function otsu_loop ::
  "nat list \<Rightarrow> int \<Rightarrow> int \<Rightarrow> nat \<Rightarrow> int \<Rightarrow> int \<Rightarrow> rat \<Rightarrow> nat \<Rightarrow> nat" where
  "otsu_loop h sm total_px t sumB wB maxVariance threshold =
     (if t < 256 then
        let wB' = wB + int (h ! t) in
        if wB' = 0 then otsu_loop h sm total_px (t + 1) sumB wB' maxVariance threshold
        else
          let wF = total_px - wB' in
          if wF = 0 then threshold
          else
            let sumB' = sumB + int t * int (h ! t);
                mB = ddiv (of_int sumB') (of_int wB');
                mF = ddiv (of_int (sm - sumB')) (of_int wF);
                variance = dmul (dmul (dmul (of_int wB') (of_int wF)) (dsub mB mF)) (dsub mB mF)
            in if variance > maxVariance
               then otsu_loop h sm total_px (t + 1) sumB' wB' variance t
               else otsu_loop h sm total_px (t + 1) sumB' wB' maxVariance threshold
      else threshold)"
  by pat_completeness auto
termination
  by (relation "measure (\<lambda>(h, sm, total_px, t, r). 256 - t)") auto

declare otsu_loop.simps [simp del]

definition otsu_threshold :: "nat list \<Rightarrow> int \<Rightarrow> nat" where
  "otsu_threshold h total_px = otsu_loop h (weighted_sum h) total_px 0 0 0 0 0"

text \<open>Step 4, \<open>data[i] > threshold ? 255 : 0\<close> on the three colour bytes.\<close>

definition threshold_value :: "nat \<Rightarrow> 8 word \<Rightarrow> 8 word" where
  "threshold_value threshold v = (if unat v > threshold then 255 else 0)"

fun threshold_pass :: "nat \<Rightarrow> 8 word list \<Rightarrow> 8 word list" where
  "threshold_pass th (r # g # b # a # rest) =
     (let v = threshold_value th r in v # v # v # a # threshold_pass th rest)"
| "threshold_pass th [r, g, b] = (let v = threshold_value th r in [v, v, v])"
| "threshold_pass th [r, g] = (let v = threshold_value th r in [v, v])"
| "threshold_pass th [r] = [threshold_value th r]"
| "threshold_pass th [] = []"

text \<open>Step 5, the median filter. \<open>Array.prototype.sort\<close> puts \<open>undefined\<close> entries
  last; \<open>undefined\<close> stored into the byte array is 0.\<close>

definition read :: "8 word list \<Rightarrow> nat \<Rightarrow> 8 word option" where
  "read d i = (if i < length d then Some (d ! i) else None)"

definition sort_neighbors :: "8 word option list \<Rightarrow> 8 word option list" where
  "sort_neighbors ns =
     map Some (sort (List.map_filter id ns)) @ filter (\<lambda>n. n = None) ns"

definition store :: "8 word option \<Rightarrow> 8 word" where
  "store v = (case v of None \<Rightarrow> 0 | Some b \<Rightarrow> b)"

definition median_pixel ::
  "nat \<Rightarrow> 8 word list \<Rightarrow> nat \<Rightarrow> 8 word list \<Rightarrow> nat \<Rightarrow> 8 word list" where
  "median_pixel w tempData y d x =
     (let idx = (y * w + x) * 4 in
      if read d idx = Some 0 \<or> read d idx = Some 255 then d
      else
        let neighbors = concat (map (\<lambda>j. map (\<lambda>i. read tempData (((y + j - 1) * w + (x + i - 1)) * 4))
                                  [0..<3]) [0..<3]);
            median = store (sort_neighbors neighbors ! 4)
        in d[idx := median, idx + 1 := median, idx + 2 := median])"

definition median_pass :: "nat \<Rightarrow> nat \<Rightarrow> 8 word list \<Rightarrow> 8 word list" where
  "median_pass w h d =
     (if w > 10 \<and> h > 10
      then foldl (\<lambda>d' y. foldl (median_pixel w d y) d' [1..<w - 1]) d [1..<h - 1]
      else d)"

definition preprocessImage :: "canvas \<Rightarrow> canvas" where
  "preprocessImage c =
     (let gray = grayscale_pass (data c);
          threshold = otsu_threshold (histogram_of gray) (int (width c * height c));
          bw = threshold_pass threshold gray
      in c\<lparr>data := median_pass (width c) (height c) bw\<rparr>)"

text \<open>A valid raster: four bytes for each of the \<open>width * height\<close> pixels.\<close>

definition valid_raster :: "canvas \<Rightarrow> bool" where
  "valid_raster c = (length (data c) = 4 * (width c * height c))"

definition binary :: "8 word \<Rightarrow> bool" where
  "binary v = (v = 0 \<or> v = 255)"

text \<open>Every colour byte (index not 3 modulo 4) is 0 or 255.\<close>

definition binarized :: "8 word list \<Rightarrow> bool" where
  "binarized d = list_all (\<lambda>i. i mod 4 = 3 \<or> binary (d ! i)) [0..<length d]"

text \<open>Concrete rasters: 2 x 1, 11 x 11, and 4 x 1 with the grey levels 0, 1, 1, 2.\<close>

definition tie_canvas :: canvas where
  "tie_canvas = \<lparr>width = 4, height = 1,
     data = [0, 0, 0, 255, 1, 1, 1, 255, 1, 1, 1, 255, 2, 2, 2, 255]\<rparr>"


definition small_canvas :: canvas where
  "small_canvas = \<lparr>width = 2, height = 1, data = [10, 20, 30, 255, 200, 210, 220, 255]\<rparr>"

definition big_canvas :: canvas where
  "big_canvas = \<lparr>width = 11, height = 11,
     data = concat (replicate 60 [10, 20, 30, 255]) @ concat (replicate 61 [200, 210, 220, 255])\<rparr>"


text \<open>
  The expression \<open>wB * wF * (mB - mF) * (mB - mF)\<close> with \<open>mB = sumB / wB\<close> and
  \<open>mF = sumF / wF\<close>, as the scan evaluates it: in doubles, from left to right.
\<close>

definition double_variance :: "rat \<Rightarrow> rat \<Rightarrow> rat \<Rightarrow> rat \<Rightarrow> rat" where
  "double_variance wB wF sumB sumF =
     (let mB = ddiv sumB wB;
          mF = ddiv sumF wF
      in dmul (dmul (dmul wB wF) (dsub mB mF)) (dsub mB mF))"

text \<open>
  The value that the scan computes at threshold \<open>t\<close>, from the histogram: \<open>wB\<close> is
  the number of pixels of intensity at most \<open>t\<close>, \<open>wF\<close> the number of the others.
  Where a class is empty its mean is a division by zero, which is 0 here; the value is
  then 0 as well, its factor \<open>wB\<close> or \<open>wF\<close> being 0 (the scan computes nothing there).
\<close>

definition wB_upto :: "nat list \<Rightarrow> nat \<Rightarrow> int" where
  "wB_upto h k = (\<Sum>i\<leftarrow>[0..<k]. int (h ! i))"

definition sumB_upto :: "nat list \<Rightarrow> nat \<Rightarrow> int" where
  "sumB_upto h k = (\<Sum>i\<leftarrow>[0..<k]. int i * int (h ! i))"

definition between_class_variance :: "nat list \<Rightarrow> int \<Rightarrow> nat \<Rightarrow> rat" where
  "between_class_variance h total_px t =
     double_variance (of_int (wB_upto h (t + 1))) (of_int (total_px - wB_upto h (t + 1)))
       (of_int (sumB_upto h (t + 1))) (of_int (sumB_upto h 256 - sumB_upto h (t + 1)))"

text \<open>\<open>r\<close> is the earliest of the 256 thresholds at which \<open>V\<close> is largest.\<close>

definition earliest_max :: "(nat \<Rightarrow> rat) \<Rightarrow> nat \<Rightarrow> bool" where
  "earliest_max V r \<longleftrightarrow> r < 256 \<and> (\<forall>u<256. V u \<le> V r) \<and> (\<forall>u<r. V u < V r)"

text \<open>A raster of whole pixels whose three colour bytes are equal and 0 or 255.\<close>

fun bw_pixels :: "8 word list \<Rightarrow> bool" where
  "bw_pixels (r # g # b # a # rest) = (binary r \<and> g = r \<and> b = r \<and> bw_pixels rest)"
| "bw_pixels [] = True"
| "bw_pixels (r # rest) = False"

text \<open>
  The intensities the histogram loop reads (every fourth byte), the grey image and the
  threshold that \<open>preprocessImage\<close> computes from it.
\<close>

fun intensities :: "8 word list \<Rightarrow> nat list" where
  "intensities (r # g # b # a # rest) = unat r # intensities rest"
| "intensities [r, g, b] = [unat r]"
| "intensities [r, g] = [unat r]"
| "intensities [r] = [unat r]"
| "intensities [] = []"

definition gray_of :: "canvas \<Rightarrow> 8 word list" where
  "gray_of c = grayscale_pass (data c)"

definition selected_threshold :: "canvas \<Rightarrow> nat" where
  "selected_threshold c = otsu_threshold (histogram_of (gray_of c)) (int (width c * height c))"

text \<open>
  The between-class variance at threshold \<open>t\<close> in terms of the pixels themselves: the
  background is the pixels of intensity at most \<open>t\<close>, the foreground the others.
  \<open>class_variance\<close> is the exact value of \<open>wB * wF * (mB - mF)\<^sup>2\<close>,
  \<open>computed_variance\<close> the double that the source's expression gives.
\<close>

definition computed_variance :: "nat list \<Rightarrow> nat \<Rightarrow> rat" where
  "computed_variance px t =
     (let bg = filter (\<lambda>v. v \<le> t) px;
          fg = filter (\<lambda>v. t < v) px
      in double_variance (of_nat (length bg)) (of_nat (length fg))
           (of_nat (sum_list bg)) (of_nat (sum_list fg)))"

definition class_variance :: "nat list \<Rightarrow> nat \<Rightarrow> rat" where
  "class_variance px t =
     (let bg = filter (\<lambda>v. v \<le> t) px;
          fg = filter (\<lambda>v. t < v) px;
          wB = of_nat (length bg);
          wF = of_nat (length fg);
          mB = of_nat (sum_list bg) / wB;
          mF = of_nat (sum_list fg) / wF
      in wB * wF * (mB - mF)\<^sup>2)"

text \<open>A 2 x 1 raster of a red and a cyan pixel: every byte is 0 or 255.\<close>

definition binarized_canvas :: canvas where
  "binarized_canvas = \<lparr>width = 2, height = 1, data = [255, 0, 0, 255, 0, 255, 255, 255]\<rparr>"

section \<open>Strings and regular expressions as the extractor uses them\<close>

text \<open>
  The recognised text is a \<open>string\<close>, each character one code unit. The character
  tests are those of JavaScript on the code units 0..255: \<open>\s\<close> and \<open>trim\<close> know
  tab, line feed, vertical tab, form feed, carriage return, space and no-break space;
  \<open>\d\<close> is 0-9; \<open>\w\<close> is a letter, a digit or the underscore; under the \<open>i\<close> flag a
  letter of a pattern matches its other case.
\<close>

definition digit :: "char \<Rightarrow> bool" where
  "digit c = (c \<in> set ''0123456789'')"

definition upper_letter :: "char \<Rightarrow> bool" where
  "upper_letter c = (c \<in> set ''ABCDEFGHIJKLMNOPQRSTUVWXYZ'')"

definition lower_letter :: "char \<Rightarrow> bool" where
  "lower_letter c = (c \<in> set ''abcdefghijklmnopqrstuvwxyz'')"

definition letter :: "char \<Rightarrow> bool" where
  "letter c = (upper_letter c \<or> lower_letter c)"

definition space :: "char \<Rightarrow> bool" where
  "space c = (c \<in> set [CHR 0x09, CHR 0x0A, CHR 0x0B, CHR 0x0C, CHR 0x0D, CHR 0x20, CHR 0xA0])"

definition word_char :: "char \<Rightarrow> bool" where
  "word_char c = (letter c \<or> digit c \<or> c = CHR ''_'')"

definition one_of :: "string \<Rightarrow> char \<Rightarrow> bool" where
  "one_of cs c = (c \<in> set cs)"

definition to_upper :: "char \<Rightarrow> char" where
  "to_upper c =
     (case map_of (zip ''abcdefghijklmnopqrstuvwxyz'' ''ABCDEFGHIJKLMNOPQRSTUVWXYZ'') c of
        None \<Rightarrow> c | Some u \<Rightarrow> u)"

definition to_lower :: "char \<Rightarrow> char" where
  "to_lower c =
     (case map_of (zip ''ABCDEFGHIJKLMNOPQRSTUVWXYZ'' ''abcdefghijklmnopqrstuvwxyz'') c of
        None \<Rightarrow> c | Some l \<Rightarrow> l)"

text \<open>A letter of a pattern under the \<open>i\<close> flag: it matches itself in either case.\<close>

definition ichar :: "char \<Rightarrow> char \<Rightarrow> bool" where
  "ichar x = (let u = to_upper x; l = to_lower x in (\<lambda>c. c = u \<or> c = l))"

text \<open>
  The patterns of the source use quantifiers on single characters and character classes
  only, and at most one capturing group each, so the pattern type has exactly that:
  \<open>Repeat p m n\<close> is the greedy \<open>p{m,n}\<close> (\<open>None\<close> for no upper bound),
  \<open>RepeatLazy\<close> its lazy form, \<open>Group\<close> the capturing group, \<open>Alt\<close> the ordered
  choice, \<open>WordBoundary\<close> is \<open>\b\<close>, \<open>Start\<close> and \<open>End\<close> are \<open>^\<close> and \<open>$\<close> (no
  pattern has the \<open>m\<close> flag).
\<close>

datatype regex =
    Class "char \<Rightarrow> bool"
  | Eps
  | Seq regex regex
  | Alt regex regex
  | Repeat "char \<Rightarrow> bool" nat "nat option"
  | RepeatLazy "char \<Rightarrow> bool" nat "nat option"
  | Group regex
  | WordBoundary
  | Start
  | End

text \<open>
  A matcher state: the character before the position (\<open>None\<close> at the start of the
  input), the characters matched so far (the last one first), the input from the position
  on, and what the group has captured.
\<close>

type_synonym mstate = "char option \<times> string \<times> string \<times> string option"

text \<open>The state after taking the characters \<open>taken\<close> (in reading order), \<open>rest\<close> being left.\<close>

definition advance :: "string \<Rightarrow> string \<Rightarrow> mstate \<Rightarrow> mstate" where
  "advance taken rest st =
     (case st of (pv, seen, s, c) \<Rightarrow>
        (if taken = [] then pv else Some (last taken), rev taken @ seen, rest, c))"

text \<open>What a quantifier can take: the splits of the input after \<open>m\<close>, \<open>m + 1\<close>, ...
  characters of the class, up to \<open>n\<close> of them, in this order (the lazy one).\<close>

fun splits :: "(char \<Rightarrow> bool) \<Rightarrow> nat \<Rightarrow> nat option \<Rightarrow> string \<Rightarrow> string \<Rightarrow> (string \<times> string) list" where
  "splits p m n taken s =
     (if m = 0 then [(taken, s)] else []) @
     (if n = Some 0 then []
      else case s of
             [] \<Rightarrow> []
           | x # xs \<Rightarrow> if p x then splits p (m - 1) (map_option (\<lambda>b. b - 1) n) (taken @ [x]) xs
                      else [])"

declare splits.simps [simp del]

definition is_word :: "char option \<Rightarrow> bool" where
  "is_word pv = (case pv of None \<Rightarrow> False | Some c \<Rightarrow> word_char c)"

definition next_char :: "string \<Rightarrow> char option" where
  "next_char s = (case s of [] \<Rightarrow> None | x # xs \<Rightarrow> Some x)"

text \<open>
  Backtracking as a list of successes: \<open>rmatch r st\<close> is every state in which a match of
  \<open>r\<close> from \<open>st\<close> can end, in the order in which the backtracking matcher tries them.
\<close>

fun rmatch :: "regex \<Rightarrow> mstate \<Rightarrow> mstate list" where
  "rmatch (Class p) (pv, seen, s, c) =
     (case s of [] \<Rightarrow> [] | x # xs \<Rightarrow> if p x then [(Some x, x # seen, xs, c)] else [])"
| "rmatch Eps st = [st]"
| "rmatch (Seq a b) st = concat (map (rmatch b) (rmatch a st))"
| "rmatch (Alt a b) st = rmatch a st @ rmatch b st"
| "rmatch (Repeat p m n) (pv, seen, s, c) =
     map (\<lambda>(taken, rest). advance taken rest (pv, seen, s, c)) (rev (splits p m n [] s))"
| "rmatch (RepeatLazy p m n) (pv, seen, s, c) =
     map (\<lambda>(taken, rest). advance taken rest (pv, seen, s, c)) (splits p m n [] s)"
| "rmatch (Group r) (pv, seen, s, c) =
     map (\<lambda>(pv', seen', s', c'). (pv', seen' @ seen, s', Some (rev seen')))
       (rmatch r (pv, [], s, c))"
| "rmatch WordBoundary (pv, seen, s, c) =
     (if is_word pv \<noteq> is_word (next_char s) then [(pv, seen, s, c)] else [])"
| "rmatch Start (pv, seen, s, c) = (if pv = None then [(pv, seen, s, c)] else [])"
| "rmatch End (pv, seen, s, c) = (if s = [] then [(pv, seen, s, c)] else [])"

text \<open>A match: the matched text (\<open>match[0]\<close>) and the group (\<open>match[1]\<close>).\<close>

record rx_match =
  m0 :: string
  m1 :: "string option"

definition match_here :: "regex \<Rightarrow> char option \<Rightarrow> string \<Rightarrow> rx_match option" where
  "match_here r pv s =
     (case rmatch r (pv, [], s, None) of
        [] \<Rightarrow> None
      | (pv', seen, s', c) # _ \<Rightarrow> Some \<lparr>m0 = rev seen, m1 = c\<rparr>)"

text \<open>\<open>exec\<close>: the first position, from the left, at which the pattern matches.\<close>

fun exec_from :: "regex \<Rightarrow> char option \<Rightarrow> string \<Rightarrow> rx_match option" where
  "exec_from r pv [] = match_here r pv []"
| "exec_from r pv (x # xs) =
     (case match_here r pv (x # xs) of
        Some m \<Rightarrow> Some m
      | None \<Rightarrow> exec_from r (Some x) xs)"

definition exec :: "regex \<Rightarrow> string \<Rightarrow> rx_match option" where
  "exec r s = exec_from r None s"

definition test :: "regex \<Rightarrow> string \<Rightarrow> bool" where
  "test r s = (exec r s \<noteq> None)"

text \<open>
  Every match of a pattern with the \<open>g\<close> flag, left to right: after a match the search
  goes on behind it (one character further after an empty match). \<open>skip\<close> counts the
  characters still covered by the last match.
\<close>

fun matchAll_from :: "regex \<Rightarrow> char option \<Rightarrow> string \<Rightarrow> nat \<Rightarrow> rx_match list" where
  "matchAll_from r pv [] skip =
     (if skip = 0 then (case match_here r pv [] of None \<Rightarrow> [] | Some m \<Rightarrow> [m]) else [])"
| "matchAll_from r pv (x # xs) skip =
     (if skip > 0 then matchAll_from r (Some x) xs (skip - 1)
      else case match_here r pv (x # xs) of
             None \<Rightarrow> matchAll_from r (Some x) xs 0
           | Some m \<Rightarrow> m # matchAll_from r (Some x) xs (length (m0 m) - 1))"

definition matchAll :: "regex \<Rightarrow> string \<Rightarrow> rx_match list" where
  "matchAll r s = matchAll_from r None s 0"

text \<open>\<open>str.match(re)\<close> with the \<open>g\<close> flag: the matched texts, or \<open>null\<close> if there are none.\<close>

definition match_global :: "regex \<Rightarrow> string \<Rightarrow> string list option" where
  "match_global r s = (case matchAll r s of [] \<Rightarrow> None | ms \<Rightarrow> Some (map m0 ms))"

text \<open>\<open>str.replace(re, rep)\<close> with the \<open>g\<close> flag.\<close>

fun replace_from :: "regex \<Rightarrow> string \<Rightarrow> char option \<Rightarrow> string \<Rightarrow> nat \<Rightarrow> string" where
  "replace_from r rep pv [] skip =
     (if skip = 0 then (case match_here r pv [] of None \<Rightarrow> [] | Some m \<Rightarrow> rep) else [])"
| "replace_from r rep pv (x # xs) skip =
     (if skip > 0 then replace_from r rep (Some x) xs (skip - 1)
      else case match_here r pv (x # xs) of
             None \<Rightarrow> x # replace_from r rep (Some x) xs 0
           | Some m \<Rightarrow>
               if m0 m = [] then rep @ x # replace_from r rep (Some x) xs 0
               else rep @ replace_from r rep (Some x) xs (length (m0 m) - 1))"

definition replace_global :: "regex \<Rightarrow> string \<Rightarrow> string \<Rightarrow> string" where
  "replace_global r rep s = replace_from r rep None s 0"

text \<open>\<open>str.replace(',', '.')\<close>: a string pattern replaces its first occurrence only.\<close>

fun replace_first :: "char \<Rightarrow> char \<Rightarrow> string \<Rightarrow> string" where
  "replace_first a b [] = []"
| "replace_first a b (x # xs) = (if x = a then b # xs else x # replace_first a b xs)"

definition trim :: "string \<Rightarrow> string" where
  "trim s = rev (dropWhile space (rev (dropWhile space s)))"

text \<open>\<open>str.split('\n')\<close>; the empty string gives one empty line.\<close>

fun split_lines :: "string \<Rightarrow> string list" where
  "split_lines [] = [[]]"
| "split_lines (x # xs) =
     (if x = CHR 0x0A then [] # split_lines xs
      else case split_lines xs of l # ls \<Rightarrow> (x # l) # ls | [] \<Rightarrow> [[x]])"

text \<open>
  \<open>parseFloat\<close> on a decimal literal without sign and exponent (the strings the code passes
  are digits with at most one period): leading white space is skipped, the longest prefix
  \<open>digits [. digits]\<close> with at least one digit is the value, exactly; \<open>None\<close> is NaN.
  The source holds the double nearest to this value. It compares the values with 0 and
  with 100000 and orders them; the numbers parsed have at most two fraction digits, so
  these comparisons, and the order of the values below 100000, are the same for the exact
  values as for their doubles.
\<close>

definition digit_value :: "char \<Rightarrow> int" where
  "digit_value d = int (length (takeWhile (\<lambda>x. x \<noteq> d) ''0123456789''))"

definition digits_value :: "string \<Rightarrow> int" where
  "digits_value ds = foldl (\<lambda>n d. 10 * n + digit_value d) 0 ds"

definition parseFloat :: "string \<Rightarrow> rat option" where
  "parseFloat s =
     (let t = dropWhile space s;
          ip = takeWhile digit t;
          r = dropWhile digit t;
          fp = (case r of [] \<Rightarrow> [] | x # xs \<Rightarrow> if x = CHR ''.'' then takeWhile digit xs else [])
      in if ip = [] \<and> fp = [] then None
         else Some (of_int (digits_value ip) + of_int (digits_value fp) / 10 ^ length fp))"

text \<open>Helpers to write the patterns: a literal, with and without the \<open>i\<close> flag, a sequence,
  a choice, an optional part.\<close>

definition lit :: "string \<Rightarrow> regex" where
  "lit s = foldr (\<lambda>x r. Seq (Class (\<lambda>c. c = x)) r) s Eps"

definition liti :: "string \<Rightarrow> regex" where
  "liti s = foldr (\<lambda>x r. Seq (Class (ichar x)) r) s Eps"

definition seqs :: "regex list \<Rightarrow> regex" where
  "seqs rs = foldr Seq rs Eps"

fun alts :: "regex list \<Rightarrow> regex" where
  "alts [] = Class (\<lambda>c. False)"
| "alts [r] = r"
| "alts (r # rs) = Alt r (alts rs)"

definition opt :: "regex \<Rightarrow> regex" where
  "opt r = Alt r Eps"

text \<open>A pattern every match of which passes through its group, so that \<open>match[1]\<close> is
  a string and never \<open>undefined\<close>.\<close>

fun captures :: "regex \<Rightarrow> bool" where
  "captures (Group r) = True"
| "captures (Seq a b) = (captures a \<or> captures b)"
| "captures (Alt a b) = (captures a \<and> captures b)"
| "captures r = False"

text \<open>
  The texts a pattern can match (anchors match the empty text), and the texts its group can
  hold. They say what a match can be; the matcher above says which one is found.
\<close>

definition bounded :: "nat \<Rightarrow> nat option \<Rightarrow> nat \<Rightarrow> bool" where
  "bounded m n k = (m \<le> k \<and> (case n of None \<Rightarrow> True | Some b \<Rightarrow> k \<le> b))"

fun lang :: "regex \<Rightarrow> string set" where
  "lang (Class p) = {[x] | x. p x}"
| "lang Eps = {[]}"
| "lang (Seq a b) = {u @ v | u v. u \<in> lang a \<and> v \<in> lang b}"
| "lang (Alt a b) = lang a \<union> lang b"
| "lang (Repeat p m n) = {w. list_all p w \<and> bounded m n (length w)}"
| "lang (RepeatLazy p m n) = {w. list_all p w \<and> bounded m n (length w)}"
| "lang (Group r) = lang r"
| "lang WordBoundary = {[]}"
| "lang Start = {[]}"
| "lang End = {[]}"

fun group_lang :: "regex \<Rightarrow> string set" where
  "group_lang (Group r) = lang r"
| "group_lang (Seq a b) = group_lang a \<union> group_lang b"
| "group_lang (Alt a b) = group_lang a \<union> group_lang b"
| "group_lang r = {}"

section \<open>The field extractor: \<open>extractDate\<close>, \<open>extractTotal\<close>, \<open>extractMerchant\<close>\<close>

text \<open>Reading a property of \<open>undefined\<close> throws a \<open>TypeError\<close>.\<close>

datatype error = TypeError

record billData =
  fullText :: string
  date :: "string option"
  total :: "string option"
  merchant :: "string option"

text \<open>\<open>text.replace(/\s+/g, ' ').trim()\<close>\<close>

definition cleanText :: "string \<Rightarrow> string" where
  "cleanText txt = trim (replace_global (Repeat space 1 None) '' '' txt)"

subsection \<open>Dates\<close>

definition date_separator :: "char \<Rightarrow> bool" where
  "date_separator c = one_of ''/.-'' c"

text \<open>\<open>/\b(\d{1,2}[/.-]\d{1,2}[/.-]\d{2,4})\b/g\<close>\<close>

definition numeric_date :: regex where
  "numeric_date =
     seqs [WordBoundary,
           Group (seqs [Repeat digit 1 (Some 2), Class date_separator,
                        Repeat digit 1 (Some 2), Class date_separator,
                        Repeat digit 2 (Some 4)]),
           WordBoundary]"

text \<open>\<open>/\b(Jan(?:uary)?|Feb(?:ruary)?|Mar(?:ch)?|Apr(?:il)?|May|Jun(?:e)?|Jul(?:y)?|Aug(?:ust)?|Sep(?:tember)?|Oct(?:ober)?|Nov(?:ember)?|Dec(?:ember)?)\s+\d{1,2}(?:st|nd|rd|th)?,?\s+\d{4}\b/gi\<close>\<close>

definition month_name :: regex where
  "month_name =
     alts [Seq (liti ''Jan'') (opt (liti ''uary'')), Seq (liti ''Feb'') (opt (liti ''ruary'')),
           Seq (liti ''Mar'') (opt (liti ''ch'')), Seq (liti ''Apr'') (opt (liti ''il'')),
           liti ''May'', Seq (liti ''Jun'') (opt (liti ''e'')),
           Seq (liti ''Jul'') (opt (liti ''y'')), Seq (liti ''Aug'') (opt (liti ''ust'')),
           Seq (liti ''Sep'') (opt (liti ''tember'')), Seq (liti ''Oct'') (opt (liti ''ober'')),
           Seq (liti ''Nov'') (opt (liti ''ember'')), Seq (liti ''Dec'') (opt (liti ''ember''))]"

definition month_date :: regex where
  "month_date =
     seqs [WordBoundary, Group month_name, Repeat space 1 None, Repeat digit 1 (Some 2),
           opt (alts [liti ''st'', liti ''nd'', liti ''rd'', liti ''th'']),
           opt (lit '',''), Repeat space 1 None, Repeat digit 4 (Some 4), WordBoundary]"

text \<open>\<open>/\b(\d{4}[/.-]\d{1,2}[/.-]\d{1,2})\b/g\<close>\<close>

definition iso_date :: regex where
  "iso_date =
     seqs [WordBoundary,
           Group (seqs [Repeat digit 4 (Some 4), Class date_separator,
                        Repeat digit 1 (Some 2), Class date_separator,
                        Repeat digit 1 (Some 2)]),
           WordBoundary]"

text \<open>\<open>/(?:Date|DATE|Invoice Date|Transaction Date|Purchase Date)[:\s]+([A-Za-z0-9\s,./-]+?)(?:\n|$|\s{2,})/i\<close>\<close>

definition keyword_date :: regex where
  "keyword_date =
     seqs [alts [liti ''Date'', liti ''DATE'', liti ''Invoice Date'', liti ''Transaction Date'',
                 liti ''Purchase Date''],
           Repeat (\<lambda>c. c = CHR '':'' \<or> space c) 1 None,
           Group (RepeatLazy (\<lambda>c. letter c \<or> digit c \<or> space c \<or> one_of '',./-'' c) 1 None),
           alts [lit [CHR 0x0A], End, Repeat space 2 None]]"

text \<open>The pattern list. The flag says whether the pattern's text includes
  \<open>Date|DATE\<close>, which the loop asks of each pattern; the three others carry \<open>g\<close>.\<close>

definition datePatterns :: "(regex \<times> bool) list" where
  "datePatterns = [(numeric_date, False), (month_date, False), (iso_date, False),
                   (keyword_date, True)]"

text \<open>The loop \<open>for (const pattern of datePatterns)\<close>.\<close>

fun try_date_patterns :: "(regex \<times> bool) list \<Rightarrow> string \<Rightarrow> error + string option" where
  "try_date_patterns [] clean = Inr None"
| "try_date_patterns ((pattern, keyword) # rest) clean =
     (if keyword then
        (case exec pattern clean of
           None \<Rightarrow> try_date_patterns rest clean
         | Some m \<Rightarrow>
             (case m1 m of
                None \<Rightarrow> Inl TypeError
              | Some g \<Rightarrow>
                  let dateMatch = trim g in
                  if test (Repeat digit 1 None) dateMatch \<and> test (Class (one_of ''/-.'')) dateMatch
                  then Inr (Some dateMatch)
                  else try_date_patterns rest clean))
      else
        (case match_global pattern clean of
           Some (first # others) \<Rightarrow> Inr (Some first)
         | _ \<Rightarrow> try_date_patterns rest clean))"

definition extractDate :: "string \<Rightarrow> error + string option" where
  "extractDate txt = try_date_patterns datePatterns (cleanText txt)"

subsection \<open>Totals\<close>

text \<open>The number of a total, \<open>\d+(?:[,.]\d{1,2})\<close>, and with the fraction optional.\<close>

definition decimal_fraction :: regex where
  "decimal_fraction = Seq (Class (one_of '',.'')) (Repeat digit 1 (Some 2))"

definition amount_with_fraction :: regex where
  "amount_with_fraction = Seq (Repeat digit 1 None) decimal_fraction"

definition amount_number :: regex where
  "amount_number = Seq (Repeat digit 1 None) (opt decimal_fraction)"

definition spaces :: regex where
  "spaces = Repeat space 0 None"

definition spaces1 :: regex where
  "spaces1 = Repeat space 1 None"

definition dollar :: regex where
  "dollar = Class (\<lambda>c. c = CHR ''$'')"

text \<open>\<open>/(?:total\s+amount|grand\s+total|amount\s+due|balance\s+due|total\s+due|total\s+to\s+pay)[:\s]*\$?\s*(\d+(?:[,.]\d{1,2}))/i\<close>\<close>

definition total_phrase :: regex where
  "total_phrase =
     seqs [alts [seqs [liti ''total'', spaces1, liti ''amount''],
                 seqs [liti ''grand'', spaces1, liti ''total''],
                 seqs [liti ''amount'', spaces1, liti ''due''],
                 seqs [liti ''balance'', spaces1, liti ''due''],
                 seqs [liti ''total'', spaces1, liti ''due''],
                 seqs [liti ''total'', spaces1, liti ''to'', spaces1, liti ''pay'']],
           Repeat (\<lambda>c. c = CHR '':'' \<or> space c) 0 None,
           opt dollar, spaces, Group amount_with_fraction]"

text \<open>\<open>/(?:total|amount|due|balance|sum|charge)(?:\s*:|\s*due|\s*payment)?\s*\$?\s*(\d+(?:[,.]\d{1,2})?)/i\<close>\<close>

definition total_keyword :: regex where
  "total_keyword =
     seqs [alts [liti ''total'', liti ''amount'', liti ''due'', liti ''balance'', liti ''sum'',
                 liti ''charge''],
           opt (alts [Seq spaces (lit '':''), Seq spaces (liti ''due''),
                      Seq spaces (liti ''payment'')]),
           spaces, opt dollar, spaces, Group amount_number]"

text \<open>\<open>/\$\s*(\d+(?:[,.]\d{1,2})?)(?:\s*(?:total|amount|due))/i\<close>\<close>

definition amount_then_keyword :: regex where
  "amount_then_keyword =
     seqs [dollar, spaces, Group amount_number,
           Seq spaces (alts [liti ''total'', liti ''amount'', liti ''due''])]"

text \<open>\<open>/\$\s*(\d+(?:[,.]\d{1,2}))/g\<close>\<close>

definition currency_amount :: regex where
  "currency_amount = seqs [dollar, spaces, Group amount_with_fraction]"

definition totalPatterns :: "regex list" where
  "totalPatterns = [total_phrase, total_keyword, amount_then_keyword, currency_amount]"

text \<open>\<open>parseFloat(total) > 0\<close>; a comparison with NaN is false.\<close>

definition positive :: "rat option \<Rightarrow> bool" where
  "positive a = (case a of None \<Rightarrow> False | Some v \<Rightarrow> v > 0)"

text \<open>The loop over all patterns but the last: \<open>for (let i = 0; i < totalPatterns.length - 1; i++)\<close>.\<close>

fun try_total_patterns :: "regex list \<Rightarrow> string \<Rightarrow> string option" where
  "try_total_patterns [] clean = None"
| "try_total_patterns (pattern # rest) clean =
     (case exec pattern clean of
        None \<Rightarrow> try_total_patterns rest clean
      | Some m \<Rightarrow>
          (case m1 m of
             None \<Rightarrow> try_total_patterns rest clean
           | Some g \<Rightarrow>
               if g = [] then try_total_patterns rest clean
               else
                 let total = replace_first CHR '','' CHR ''.'' g in
                 if positive (parseFloat total) then Some total
                 else try_total_patterns rest clean))"

text \<open>The objects \<open>{value, amount}\<close> of the fallback (the \<open>index\<close> field is never read).\<close>

record amount_item =
  item_value :: string
  item_amount :: "rat option"

fun amount_items :: "rx_match list \<Rightarrow> error + amount_item list" where
  "amount_items [] = Inr []"
| "amount_items (m # ms) =
     (case m1 m of
        None \<Rightarrow> Inl TypeError
      | Some g \<Rightarrow>
          (case amount_items ms of
             Inl e \<Rightarrow> Inl e
           | Inr items \<Rightarrow>
               let v = replace_first CHR '','' CHR ''.'' g in
               Inr (\<lparr>item_value = v, item_amount = parseFloat v\<rparr> # items)))"

text \<open>The amount of an item that has passed \<open>!isNaN(item.amount)\<close>.\<close>

definition amount_of :: "amount_item \<Rightarrow> rat" where
  "amount_of a = (case item_amount a of None \<Rightarrow> 0 | Some v \<Rightarrow> v)"

text \<open>\<open>amounts.sort((a, b) => b.amount - a.amount)\<close>: a stable sort, largest first.\<close>

definition sort_descending :: "amount_item list \<Rightarrow> amount_item list" where
  "sort_descending items = sort_key (\<lambda>a. - amount_of a) items"

definition largest_amount :: "string \<Rightarrow> error + string option" where
  "largest_amount clean =
     (case amount_items (matchAll (last totalPatterns) clean) of
        Inl e \<Rightarrow> Inl e
      | Inr items \<Rightarrow>
          let amounts = filter (\<lambda>item. positive (item_amount item)) items in
          if amounts \<noteq> [] then
            let reasonableAmounts = filter (\<lambda>a. amount_of a < 100000) (sort_descending amounts) in
            (case reasonableAmounts of
               [] \<Rightarrow> Inr None
             | a # others \<Rightarrow> Inr (Some (item_value a)))
          else Inr None)"

definition extractTotal :: "string \<Rightarrow> error + string option" where
  "extractTotal txt =
     (let clean = cleanText txt in
      case try_total_patterns (butlast totalPatterns) clean of
        Some t \<Rightarrow> Inr (Some t)
      | None \<Rightarrow> largest_amount clean)"

subsection \<open>Merchants\<close>

definition name_char :: "char \<Rightarrow> bool" where
  "name_char c = (letter c \<or> digit c \<or> space c \<or> one_of [CHR ''&'', CHR '','', CHR ''.'', CHR 0x27, CHR ''-''] c)"

definition label_separator :: regex where
  "label_separator = Repeat (\<lambda>c. c = CHR '':'' \<or> space c) 1 None"

text \<open>\<open>/(?:merchant|vendor|store|business|retailer|seller|company)[:\s]+([A-Za-z0-9\s&,.'\-]+)/i\<close>\<close>

definition merchant_label :: regex where
  "merchant_label =
     seqs [alts [liti ''merchant'', liti ''vendor'', liti ''store'', liti ''business'',
                 liti ''retailer'', liti ''seller'', liti ''company''],
           label_separator, Group (Repeat name_char 1 None)]"

text \<open>\<open>/(?:invoice from|receipt from|sold by)[:\s]+([A-Za-z0-9\s&,.'\-]+)/i\<close>\<close>

definition merchant_phrase :: regex where
  "merchant_phrase =
     seqs [alts [liti ''invoice from'', liti ''receipt from'', liti ''sold by''],
           label_separator, Group (Repeat name_char 1 None)]"

definition merchantPatterns :: "regex list" where
  "merchantPatterns = [merchant_label, merchant_phrase]"

text \<open>\<open>text.split('\n').map(line => line.trim()).filter(line => line.length > 2)\<close>\<close>

definition lines_of :: "string \<Rightarrow> string list" where
  "lines_of txt = filter (\<lambda>line. length line > 2) (map trim (split_lines txt))"

text \<open>The inner loop \<open>for (const line of lines)\<close> and the outer loop
  \<open>for (const pattern of merchantPatterns)\<close>.\<close>

fun first_labeled_line :: "regex \<Rightarrow> string list \<Rightarrow> string option" where
  "first_labeled_line pattern [] = None"
| "first_labeled_line pattern (line # rest) =
     (case exec pattern line of
        None \<Rightarrow> first_labeled_line pattern rest
      | Some m \<Rightarrow>
          (case m1 m of
             None \<Rightarrow> first_labeled_line pattern rest
           | Some g \<Rightarrow>
               if g \<noteq> [] \<and> length g > 2 then Some (trim g)
               else first_labeled_line pattern rest))"

fun labeled_merchant :: "regex list \<Rightarrow> string list \<Rightarrow> string option" where
  "labeled_merchant [] lines = None"
| "labeled_merchant (pattern # rest) lines =
     (case first_labeled_line pattern lines of
        Some name \<Rightarrow> Some name
      | None \<Rightarrow> labeled_merchant rest lines)"

text \<open>The filters of the header lines:
  \<open>/\d{1,2}[/.-]\d{1,2}[/.-]\d{2,4}/\<close>, \<open>/\$\d+\.\d{2}/\<close>,
  \<open>/^\d+\s+[a-zA-Z]+\s+(?:street|st|avenue|ave|road|rd|boulevard|blvd)/i\<close> and
  \<open>/^(?:tel|phone|fax|www|http)/i\<close>.\<close>

definition looks_like_date :: regex where
  "looks_like_date =
     seqs [Repeat digit 1 (Some 2), Class date_separator, Repeat digit 1 (Some 2),
           Class date_separator, Repeat digit 2 (Some 4)]"

definition looks_like_amount :: regex where
  "looks_like_amount =
     seqs [dollar, Repeat digit 1 None, Class (\<lambda>c. c = CHR ''.''), Repeat digit 2 (Some 2)]"

definition looks_like_address :: regex where
  "looks_like_address =
     seqs [Start, Repeat digit 1 None, spaces1, Repeat letter 1 None, spaces1,
           alts [liti ''street'', liti ''st'', liti ''avenue'', liti ''ave'', liti ''road'',
                 liti ''rd'', liti ''boulevard'', liti ''blvd'']]"

definition looks_like_contact :: regex where
  "looks_like_contact =
     Seq Start (alts [liti ''tel'', liti ''phone'', liti ''fax'', liti ''www'', liti ''http''])"

definition potential_merchant :: "string \<Rightarrow> bool" where
  "potential_merchant line =
     (length line > 3 \<and> \<not> test looks_like_date line \<and> \<not> test looks_like_amount line \<and>
      \<not> test looks_like_address line \<and> \<not> test looks_like_contact line)"

text \<open>
  \<open>line === line.toUpperCase()\<close>: no character of the line has an upper-case form of its
  own. Among the code units below 256 those are a-z, the micro sign, the sharp s and the
  accented small letters (223..255 without the division sign 247).
\<close>

definition has_upper_case :: "char \<Rightarrow> bool" where
  "has_upper_case c =
     (lower_letter c \<or>
      (let n = (of_char c :: int) in n = 181 \<or> (223 \<le> n \<and> n \<noteq> 247)))"

definition is_own_upper_case :: "string \<Rightarrow> bool" where
  "is_own_upper_case line = list_all (\<lambda>c. \<not> has_upper_case c) line"

text \<open>\<open>/^[A-Z][a-z]/\<close> and \<open>/\d{3,}/\<close>\<close>

definition title_case :: regex where
  "title_case = seqs [Start, Class upper_letter, Class lower_letter]"

definition digit_run :: regex where
  "digit_run = Repeat digit 3 None"

definition score :: "string \<Rightarrow> int" where
  "score line =
     (if is_own_upper_case line then 4 else 0) +
     (if test title_case line then 3 else 0) +
     (if length line > 7 then 2 else 0) +
     (if length line < 30 then 1 else 0) -
     (if test digit_run line then 3 else 0)"

text \<open>\<open>.sort((a, b) => b.score - a.score)\<close>: a stable sort, highest score first.\<close>

definition prioritize :: "string list \<Rightarrow> string list" where
  "prioritize ls = sort_key (\<lambda>line. - score line) ls"

definition header_merchant :: "string list \<Rightarrow> string option" where
  "header_merchant lines =
     (let headerLines = take (min 6 (length lines)) lines;
          potentialMerchants = filter potential_merchant headerLines;
          prioritizedLines = prioritize potentialMerchants
      in case prioritizedLines of [] \<Rightarrow> None | best # others \<Rightarrow> Some best)"

definition extractMerchant :: "string \<Rightarrow> string option" where
  "extractMerchant txt =
     (let lines = lines_of txt in
      case labeled_merchant merchantPatterns lines of
        Some name \<Rightarrow> Some name
      | None \<Rightarrow> header_merchant lines)"

subsection \<open>The record built by \<open>processImage\<close>\<close>

text \<open>The object literal evaluates its fields in order; an exception in one of the three
  calls would leave no record.\<close>

definition billData_of :: "string \<Rightarrow> error + billData" where
  "billData_of txt =
     (case extractDate txt of
        Inl e \<Rightarrow> Inl e
      | Inr d \<Rightarrow>
          (case extractTotal txt of
             Inl e \<Rightarrow> Inl e
           | Inr t \<Rightarrow>
               Inr \<lparr>fullText = txt, date = d, total = t, merchant = extractMerchant txt\<rparr>))"

subsection \<open>The words of the claims\<close>

text \<open>Runs of white space collapsed to one space each: inside a run (\<open>in_run\<close>) nothing
  more is written.\<close>

fun collapse :: "bool \<Rightarrow> string \<Rightarrow> string" where
  "collapse in_run [] = []"
| "collapse in_run (x # xs) =
     (if space x then (if in_run then collapse True xs else CHR '' '' # collapse True xs)
      else x # collapse False xs)"

text \<open>What one label pattern yields: its captured number, the comma made a period, if it
  parses to a value above 0.\<close>

definition captured_total :: "regex \<Rightarrow> string \<Rightarrow> string option" where
  "captured_total pattern clean =
     (case exec pattern clean of
        None \<Rightarrow> None
      | Some m \<Rightarrow>
          (case m1 m of
             None \<Rightarrow> None
           | Some g \<Rightarrow>
               if positive (parseFloat (replace_first CHR '','' CHR ''.'' g))
               then Some (replace_first CHR '','' CHR ''.'' g) else None))"

text \<open>Every amount behind a currency symbol in the text, in text order, with its value;
  the plausible ones are above 0 and below 100000.\<close>

definition currency_items :: "string \<Rightarrow> amount_item list" where
  "currency_items clean =
     map (\<lambda>m. \<lparr>item_value = replace_first CHR '','' CHR ''.'' (case m1 m of None \<Rightarrow> [] | Some g \<Rightarrow> g),
              item_amount = parseFloat (replace_first CHR '','' CHR ''.''
                                          (case m1 m of None \<Rightarrow> [] | Some g \<Rightarrow> g))\<rparr>)
       (matchAll currency_amount clean)"

definition plausible :: "amount_item \<Rightarrow> bool" where
  "plausible a = (positive (item_amount a) \<and> amount_of a < 100000)"

text \<open>The fallback as the specification words it: every number behind a currency symbol is
  collected, with or without fraction digits, and the largest plausible one is returned.\<close>

definition currency_number :: regex where
  "currency_number = seqs [dollar, spaces, Group amount_number]"

definition spec_fallback_total :: "string \<Rightarrow> string option" where
  "spec_fallback_total clean =
     (case sort_descending (filter plausible
             (map (\<lambda>m. \<lparr>item_value = replace_first CHR '','' CHR ''.'' (case m1 m of None \<Rightarrow> [] | Some g \<Rightarrow> g),
                        item_amount = parseFloat (replace_first CHR '','' CHR ''.''
                                          (case m1 m of None \<Rightarrow> [] | Some g \<Rightarrow> g))\<rparr>)
                (matchAll currency_number clean))) of
        [] \<Rightarrow> None
      | a # others \<Rightarrow> Some (item_value a))"

text \<open>What one line gives under one label pattern: the body of the inner loop.\<close>

definition captured_name :: "regex \<Rightarrow> string \<Rightarrow> string option" where
  "captured_name pattern line =
     (case exec pattern line of
        None \<Rightarrow> None
      | Some m \<Rightarrow>
          (case m1 m of
             None \<Rightarrow> None
           | Some g \<Rightarrow> if length g > 2 then Some (trim g) else None))"

text \<open>The labeled phase as the specification words it: the lines are scanned in line order,
  and the first line on which any of the labels captures a name gives the merchant.\<close>

fun spec_labeled_merchant :: "regex list \<Rightarrow> string list \<Rightarrow> string option" where
  "spec_labeled_merchant patterns [] = None"
| "spec_labeled_merchant patterns (line # rest) =
     (case List.map_filter (\<lambda>pattern. captured_name pattern line) patterns of
        name # others \<Rightarrow> Some name
      | [] \<Rightarrow> spec_labeled_merchant patterns rest)"

text \<open>The header scan as the specification words it: of the first six lines, those that
  look like a date, an amount, an address or contact data are discarded, and no others.\<close>

definition spec_candidate :: "string \<Rightarrow> bool" where
  "spec_candidate line =
     (\<not> test looks_like_date line \<and> \<not> test looks_like_amount line \<and>
      \<not> test looks_like_address line \<and> \<not> test looks_like_contact line)"

definition spec_header_merchant :: "string \<Rightarrow> string option" where
  "spec_header_merchant txt =
     (case prioritize (filter spec_candidate (take 6 (lines_of txt))) of
        [] \<Rightarrow> None
      | best # others \<Rightarrow> Some best)"

section \<open>The model of double arithmetic\<close>

text \<open>The exponent is the one of the binade of the number.\<close>

lemma bitlen_powi:
  assumes "0 < a"
  shows "(2::rat) powi (bitlen a - 1) \<le> of_int a \<and> of_int a < (2::rat) powi bitlen a"
proof -
  from bitlen_bounds[OF assms] have l: "2 ^ nat (bitlen a - 1) \<le> a" and u: "a < 2 ^ nat (bitlen a)"
    by auto
  have p: "1 \<le> bitlen a"
    using assms bitlen_ge_iff_power[of 1 a] by simp
  have "(2::rat) powi (bitlen a - 1) = 2 ^ nat (bitlen a - 1)"
    using p power_int_of_nat[of "2::rat" "nat (bitlen a - 1)"] by simp
  moreover have "(2::rat) powi bitlen a = 2 ^ nat (bitlen a)"
    using p power_int_of_nat[of "2::rat" "nat (bitlen a)"] by simp
  moreover have "(2::rat) ^ nat (bitlen a - 1) \<le> of_int a"
    using l by (metis of_int_le_iff of_int_numeral of_int_power)
  moreover have "of_int a < (2::rat) ^ nat (bitlen a)"
    using u by (metis of_int_less_iff of_int_numeral of_int_power)
  ultimately show ?thesis by simp
qed

lemma exponent_bounds:
  assumes "0 < x"
  shows "2 powi exponent x \<le> x \<and> x < 2 powi (exponent x + 1)"
proof -
  obtain a b where q: "quotient_of x = (a, b)" by (cases "quotient_of x")
  have b: "0 < b" using quotient_of_denom_pos[OF q] .
  have x: "x = of_int a / of_int b" using quotient_of_div[OF q] .
  have a: "0 < a" using assms b x by (simp add: zero_less_divide_iff)
  define k where "k = bitlen a - bitlen b"
  note A = bitlen_powi[OF a] and B = bitlen_powi[OF b]
  have pb: "(0::rat) < of_int b" using b by simp
  have pa: "(0::rat) < of_int a" using a by simp
  have pp: "(0::rat) < 2 powi n" for n by (simp add: zero_less_power_int)
  have "x < 2 powi bitlen a / of_int b"
    unfolding x using A pb by (simp add: divide_strict_right_mono)
  also have "\<dots> \<le> 2 powi bitlen a / 2 powi (bitlen b - 1)"
    using B pb pp by (intro divide_left_mono) (auto intro: mult_pos_pos less_imp_le)
  also have "\<dots> = 2 powi (k + 1)"
    unfolding k_def by (simp add: power_int_diff[symmetric] algebra_simps)
  finally have up: "x < 2 powi (k + 1)" .
  have "(2::rat) powi (k - 1) = 2 powi (bitlen a - 1) / 2 powi bitlen b"
    unfolding k_def by (simp add: power_int_diff[symmetric] algebra_simps)
  also have "\<dots> \<le> of_int a / 2 powi bitlen b"
    using A by (simp add: divide_right_mono)
  also have "\<dots> \<le> x"
    unfolding x using B pa pb pp by (intro divide_left_mono) (auto intro: mult_pos_pos less_imp_le)
  finally have lo: "2 powi (k - 1) \<le> x" .
  have e: "exponent x = (if 2 powi k \<le> x then k else k - 1)"
    by (simp add: exponent_def q k_def Let_def)
  show ?thesis
  proof (cases "2 powi k \<le> x")
    case True
    then show ?thesis using up e by simp
  next
    case False
    then show ?thesis using lo e by simp
  qed
qed


lemma round_half_even_nearest:
  "\<bar>of_int (round_half_even y) - y\<bar> \<le> \<bar>of_int m - y\<bar>"
proof -
  define f where "f = \<lfloor>y\<rfloor>"
  have f: "of_int f \<le> y" "y < of_int f + 1" unfolding f_def by linarith+
  have "m \<le> f \<or> f + 1 \<le> m" by linarith
  then have m: "(of_int m :: rat) \<le> of_int f \<or> (of_int f :: rat) + 1 \<le> of_int m"
    by (metis of_int_1 of_int_add of_int_le_iff)
  have r: "round_half_even y =
      (if of_int f + 1 / 2 < y then f + 1
       else if y < of_int f + 1 / 2 then f
       else if even f then f else f + 1)"
    by (simp add: round_half_even_def f_def Let_def)
  consider "of_int f + 1 / 2 < y" | "y < of_int f + 1 / 2" | "y = of_int f + 1 / 2"
    by linarith
  then show ?thesis
  proof cases
    case 1
    then have "round_half_even y = f + 1" using r by simp
    then show ?thesis using 1 f m by auto
  next
    case 2
    then have "round_half_even y = f" using r by simp
    then show ?thesis using 2 f m by auto
  next
    case 3
    then have "round_half_even y = f \<or> round_half_even y = f + 1" using r by simp
    then show ?thesis using 3 f m by auto
  qed
qed

lemma round_half_even_mono_bounds:
  assumes "of_int l \<le> y" and "y < of_int u"
  shows "l \<le> round_half_even y \<and> round_half_even y \<le> u"
proof -
  define f where "f = \<lfloor>y\<rfloor>"
  have "l \<le> f" unfolding f_def using assms(1) by (simp add: le_floor_iff)
  moreover have "f < u" unfolding f_def using assms(2) by (simp add: floor_less_iff)
  moreover have "round_half_even y = f \<or> round_half_even y = f + 1"
    by (simp add: round_half_even_def f_def Let_def)
  ultimately show ?thesis by auto
qed

text \<open>\<open>double x\<close> is a number with a significand of 53 bits, and no such number with the
  exponent of \<open>x\<close> is nearer to \<open>x\<close>.\<close>

lemma double_significand:
  assumes "x \<noteq> 0"
  shows "\<exists>n. 2 ^ 52 \<le> n \<and> n \<le> 2 ^ 53 \<and>
    double x = sgn x * of_int n * 2 powi (exponent \<bar>x\<bar> - 52)"
proof -
  define e where "e = exponent \<bar>x\<bar>"
  define q :: rat where "q = 2 powi (e - 52)"
  have q: "0 < q" unfolding q_def by (simp add: zero_less_power_int)
  have px: "0 < \<bar>x\<bar>" using assms by simp
  from exponent_bounds[OF px] have b: "2 powi e \<le> \<bar>x\<bar>" "\<bar>x\<bar> < 2 powi (e + 1)"
    unfolding e_def by auto
  have "(2::rat) powi e = 2 ^ 52 * q"
    unfolding q_def by (simp add: power_int_diff)
  then have l: "of_int (2 ^ 52) \<le> \<bar>x\<bar> / q" using b(1) q by (simp add: pos_le_divide_eq)
  have "(2::rat) powi (e + 1) = 2 ^ 53 * q"
    unfolding q_def by (simp add: power_int_diff power_int_add)
  then have u: "\<bar>x\<bar> / q < of_int (2 ^ 53)" using b(2) q by (simp add: pos_divide_less_eq)
  from round_half_even_mono_bounds[OF l u]
  have "2 ^ 52 \<le> round_half_even (\<bar>x\<bar> / q) \<and> round_half_even (\<bar>x\<bar> / q) \<le> 2 ^ 53" .
  moreover have "double x = sgn x * of_int (round_half_even (\<bar>x\<bar> / q)) * q"
    using assms by (simp add: double_def Let_def q_def e_def)
  ultimately show ?thesis unfolding q_def e_def by blast
qed

lemma double_nearest:
  "\<bar>double x - x\<bar> \<le> \<bar>of_int m * 2 powi (exponent \<bar>x\<bar> - 52) - x\<bar>"
proof (cases "x = 0")
  case True
  then show ?thesis by (simp add: double_def)
next
  case False
  define q :: rat where "q = 2 powi (exponent \<bar>x\<bar> - 52)"
  define y where "y = \<bar>x\<bar> / q"
  have q: "0 < q" unfolding q_def by (simp add: zero_less_power_int)
  have d: "double x = sgn x * of_int (round_half_even y) * q"
    using False by (simp add: double_def Let_def q_def y_def)
  have xy: "\<bar>x\<bar> = y * q" unfolding y_def using q by simp
  have g: "\<bar>of_int n * q - \<bar>x\<bar>\<bar> = q * \<bar>of_int n - y\<bar>" for n
  proof -
    have "of_int n * q - \<bar>x\<bar> = q * (of_int n - y)" unfolding xy by (simp add: algebra_simps)
    then show ?thesis using q by (simp add: abs_mult)
  qed
  show ?thesis
  proof (cases "0 < x")
    case True
    then have "\<bar>double x - x\<bar> = \<bar>of_int (round_half_even y) * q - \<bar>x\<bar>\<bar>"
      unfolding d by simp
    also have "\<dots> = q * \<bar>of_int (round_half_even y) - y\<bar>" by (rule g)
    also have "\<dots> \<le> q * \<bar>of_int m - y\<bar>"
      using round_half_even_nearest[of y m] q by simp
    also have "\<dots> = \<bar>of_int m * q - \<bar>x\<bar>\<bar>" by (rule g[symmetric])
    also have "\<dots> = \<bar>of_int m * q - x\<bar>" using True by simp
    finally show ?thesis unfolding q_def .
  next
    case neg: False
    then have n: "x < 0" using False by simp
    then have "\<bar>double x - x\<bar> = \<bar>- (of_int (round_half_even y) * q - \<bar>x\<bar>)\<bar>"
      unfolding d by simp
    also have "\<dots> = \<bar>of_int (round_half_even y) * q - \<bar>x\<bar>\<bar>" by (rule abs_minus_cancel)
    also have "\<dots> = q * \<bar>of_int (round_half_even y) - y\<bar>" by (rule g)
    also have "\<dots> \<le> q * \<bar>of_int (- m) - y\<bar>"
      using round_half_even_nearest[of y "- m"] q by simp
    also have "\<dots> = \<bar>of_int (- m) * q - \<bar>x\<bar>\<bar>" by (rule g[symmetric])
    also have "\<dots> = \<bar>- (of_int m * q - x)\<bar>" using n by simp
    also have "\<dots> = \<bar>of_int m * q - x\<bar>" by (rule abs_minus_cancel)
    finally show ?thesis unfolding q_def .
  qed
qed

text \<open>The three literals of the grey formula, as doubles.\<close>

lemma double_literals:
  "double (299 / 1000) = 5386305154335113 / 2 ^ 54 \<and>
   double (587 / 1000) = 2643612981266481 / 2 ^ 52 \<and>
   double (114 / 1000) = 8214565720323785 / 2 ^ 56"
  by code_simp


section \<open>The normalizer's output is binarized\<close>

lemma length_grayscale_pass: "length (grayscale_pass d) = length d"
  by (induction d rule: grayscale_pass.induct) (simp_all add: Let_def)

lemma length_threshold_pass: "length (threshold_pass th d) = length d"
  by (induction th d rule: threshold_pass.induct) (simp_all add: Let_def)

lemma binarized_iff: "binarized d \<longleftrightarrow> (\<forall>i<length d. i mod 4 \<noteq> 3 \<longrightarrow> binary (d ! i))"
  by (auto simp: binarized_def list_all_iff)

lemma binary_threshold_value: "binary (threshold_value th v)"
  by (simp add: binary_def threshold_value_def)

lemma threshold_pass_nth:
  "i < length d \<Longrightarrow> i mod 4 \<noteq> 3 \<Longrightarrow> threshold_pass th d ! i = threshold_value th (d ! (i - i mod 4))"
proof (induction th d arbitrary: i rule: threshold_pass.induct)
  case (1 th r g b a rest)
  show ?case
  proof (cases "i < 4")
    case True
    then consider "i = 0" | "i = 1" | "i = 2" | "i = 3" by linarith
    then show ?thesis using "1.prems" by cases (simp_all add: Let_def)
  next
    case False
    then obtain k where k: "i = k + 4" by (metis add.commute le_Suc_ex not_less)
    have "k < length rest" "k mod 4 \<noteq> 3" using "1.prems" k by simp_all
    then have "threshold_pass th rest ! k = threshold_value th (rest ! (k - k mod 4))"
      by (rule "1.IH"[OF refl])
    moreover have "i - i mod 4 = (k - k mod 4) + 4" using k by (simp add: mod_less_eq_dividend)
    moreover have "\<And>xs j. (r # g # b # a # xs) ! (j + 4) = xs ! j"
      by (simp add: numeral_Bit0)
    ultimately show ?thesis using k by (simp add: Let_def)
  qed
next
  case (2 th r g b)
  then have "i = 0 \<or> i = 1 \<or> i = 2" by auto
  then show ?case by (auto simp: Let_def)
next
  case (3 th r g)
  then have "i = 0 \<or> i = 1" by auto
  then show ?case by (auto simp: Let_def)
next
  case (4 th r)
  then show ?case by simp
next
  case (5 th)
  then show ?case by simp
qed

lemma binarized_threshold_pass: "binarized (threshold_pass th d)"
  by (simp add: binarized_iff length_threshold_pass threshold_pass_nth binary_threshold_value)

lemma median_pixel_inert:
  assumes "binarized d"
  shows "median_pixel w tmp y d x = d"
proof (cases "(y * w + x) * 4 < length d")
  case True
  moreover have "((y * w + x) * 4) mod 4 \<noteq> 3" by simp
  ultimately have "binary (d ! ((y * w + x) * 4))"
    using assms unfolding binarized_iff by blast
  with True show ?thesis by (simp add: median_pixel_def read_def binary_def)
next
  case False
  then have "length d \<le> (y * w + x) * 4" "length d \<le> (y * w + x) * 4 + 1"
    "length d \<le> (y * w + x) * 4 + 2" by simp_all
  then show ?thesis
    unfolding median_pixel_def Let_def by (simp only: list_update_beyond length_list_update if_cancel)
qed

lemma foldl_inert: "(\<And>x. f d x = d) \<Longrightarrow> foldl f d xs = d"
  by (induction xs) simp_all

lemma median_pass_inert: "binarized d \<Longrightarrow> median_pass w h d = d"
  by (simp add: median_pass_def foldl_inert median_pixel_inert)

lemma data_preprocessImage:
  "data (preprocessImage c) =
     threshold_pass (otsu_threshold (histogram_of (grayscale_pass (data c))) (int (width c * height c)))
       (grayscale_pass (data c))"
  by (simp add: preprocessImage_def Let_def median_pass_inert binarized_threshold_pass)


lemma length_concat_replicate: "length (concat (replicate n xs)) = n * length xs"
  by (induction n) simp_all

lemma valid_small_canvas: "valid_raster small_canvas"
  by (simp add: valid_raster_def small_canvas_def)

lemma valid_big_canvas: "valid_raster big_canvas"
  by (simp add: valid_raster_def big_canvas_def length_concat_replicate)


section \<open>Otsu's scan selects the earliest maximum\<close>

lemma wB_upto_0: "wB_upto h 0 = 0" by (simp add: wB_upto_def)
lemma sumB_upto_0: "sumB_upto h 0 = 0" by (simp add: sumB_upto_def)
lemma wB_upto_Suc: "wB_upto h (Suc k) = wB_upto h k + int (h ! k)" by (simp add: wB_upto_def)
lemma sumB_upto_Suc: "sumB_upto h (Suc k) = sumB_upto h k + int k * int (h ! k)"
  by (simp add: sumB_upto_def)

lemma wB_upto_nonneg: "0 \<le> wB_upto h k"
  by (induction k) (simp_all add: wB_upto_0 wB_upto_Suc)

lemma wB_upto_mono: "j \<le> k \<Longrightarrow> wB_upto h j \<le> wB_upto h k"
  by (induction k) (auto simp: wB_upto_Suc le_Suc_eq)

lemma weighted_sum_eq: "weighted_sum h = sumB_upto h 256"
  by (simp add: weighted_sum_def sumB_upto_def)

lemma round_half_even_nonneg: "0 \<le> x \<Longrightarrow> 0 \<le> round_half_even x"
  by (auto simp: round_half_even_def Let_def)

lemma double_0: "double 0 = 0"
  by (simp add: double_def)

lemma double_nonneg: "0 \<le> x \<Longrightarrow> 0 \<le> double x"
proof -
  assume x: "0 \<le> x"
  have q: "0 < (2::rat) powi k" for k by simp
  have "0 \<le> \<bar>x\<bar> / 2 powi (exponent \<bar>x\<bar> - 52)" using q by simp
  then have "0 \<le> round_half_even (\<bar>x\<bar> / 2 powi (exponent \<bar>x\<bar> - 52))"
    by (rule round_half_even_nonneg)
  then show ?thesis using x q by (simp add: double_def Let_def sgn_if)
qed

lemma double_nonpos: "x \<le> 0 \<Longrightarrow> double x \<le> 0"
proof -
  assume x: "x \<le> 0"
  have q: "0 < (2::rat) powi k" for k by simp
  have "0 \<le> \<bar>x\<bar> / 2 powi (exponent \<bar>x\<bar> - 52)" using q by simp
  then have "0 \<le> round_half_even (\<bar>x\<bar> / 2 powi (exponent \<bar>x\<bar> - 52))"
    by (rule round_half_even_nonneg)
  then show ?thesis using x q by (simp add: double_def Let_def sgn_if mult_nonneg_nonneg)
qed

lemma double_variance_nonneg:
  assumes "0 \<le> wB" and "0 \<le> wF"
  shows "0 \<le> double_variance wB wF sumB sumF"
proof -
  define d where "d = dsub (ddiv sumB wB) (ddiv sumF wF)"
  have p1: "0 \<le> dmul wB wF" using assms by (simp add: dmul_def double_nonneg)
  have "0 \<le> dmul (dmul (dmul wB wF) d) d"
  proof (cases "0 \<le> d")
    case True
    then have "0 \<le> dmul (dmul wB wF) d" using p1 by (simp add: dmul_def double_nonneg)
    then show ?thesis using True by (simp add: dmul_def double_nonneg)
  next
    case False
    then have d: "d \<le> 0" by simp
    then have "dmul wB wF * d \<le> 0" using p1 by (simp add: mult_nonneg_nonpos)
    then have "dmul (dmul wB wF) d \<le> 0" unfolding dmul_def[of "dmul wB wF"] by (rule double_nonpos)
    then have "0 \<le> dmul (dmul wB wF) d * d" using d by (simp add: mult_nonpos_nonpos)
    then show ?thesis unfolding dmul_def[of "dmul (dmul wB wF) d"] by (rule double_nonneg)
  qed
  then show ?thesis by (simp add: double_variance_def Let_def d_def)
qed

lemma double_variance_zero_wB: "double_variance 0 wF sumB sumF = 0"
  by (simp add: double_variance_def dmul_def double_0)

lemma double_variance_zero_wF: "double_variance wB 0 sumB sumF = 0"
  by (simp add: double_variance_def dmul_def double_0)

lemma variance_nonneg:
  assumes "wB_upto h (Suc u) \<le> total_px"
  shows "0 \<le> between_class_variance h total_px u"
proof -
  have "0 \<le> (of_int (wB_upto h (Suc u)) :: rat)" using wB_upto_nonneg by simp
  moreover have "0 \<le> (of_int (total_px - wB_upto h (Suc u)) :: rat)" using assms by simp
  ultimately show ?thesis
    unfolding between_class_variance_def Suc_eq_plus1[symmetric]
    by (rule double_variance_nonneg)
qed

lemma variance_zero_wB: "wB_upto h (Suc u) = 0 \<Longrightarrow> between_class_variance h total_px u = 0"
  by (simp add: between_class_variance_def double_variance_zero_wB)

lemma variance_zero_wF: "wB_upto h (Suc u) = total_px \<Longrightarrow> between_class_variance h total_px u = 0"
  by (simp add: between_class_variance_def double_variance_zero_wF)

lemma variance_code:
  "dmul (dmul (dmul (of_int (wB_upto h (Suc t))) (of_int (total_px - wB_upto h (Suc t))))
       (dsub (ddiv (of_int (sumB_upto h (Suc t))) (of_int (wB_upto h (Suc t))))
             (ddiv (of_int (sumB_upto h 256 - sumB_upto h (Suc t)))
                   (of_int (total_px - wB_upto h (Suc t))))))
     (dsub (ddiv (of_int (sumB_upto h (Suc t))) (of_int (wB_upto h (Suc t))))
           (ddiv (of_int (sumB_upto h 256 - sumB_upto h (Suc t)))
                 (of_int (total_px - wB_upto h (Suc t)))))
   = between_class_variance h total_px t"
  by (simp add: between_class_variance_def double_variance_def Let_def)


lemma otsu_loop_exit: "\<not> t < 256 \<Longrightarrow> otsu_loop h sm total_px t sumB wB M th = th"
  by (subst otsu_loop.simps) simp

lemma otsu_loop_continue:
  assumes "t < 256" and "wB = wB_upto h t" and "wB_upto h (Suc t) = 0"
  shows "otsu_loop h sm total_px t sumB wB M th =
         otsu_loop h sm total_px (Suc t) sumB (wB_upto h (Suc t)) M th"
  using assms by (subst otsu_loop.simps) (simp add: Let_def wB_upto_Suc)

lemma otsu_loop_break:
  assumes "t < 256" and "wB = wB_upto h t" and "wB_upto h (Suc t) \<noteq> 0"
    and "total_px = wB_upto h (Suc t)"
  shows "otsu_loop h sm total_px t sumB wB M th = th"
  using assms by (subst otsu_loop.simps) (simp add: Let_def wB_upto_Suc)

lemma otsu_loop_scan:
  assumes "t < 256" and "wB = wB_upto h t" and "sumB = sumB_upto h t"
    and "sm = sumB_upto h 256"
    and "wB_upto h (Suc t) \<noteq> 0" and "total_px \<noteq> wB_upto h (Suc t)"
  shows "otsu_loop h sm total_px t sumB wB M th =
     (if between_class_variance h total_px t > M
      then otsu_loop h sm total_px (Suc t) (sumB_upto h (Suc t)) (wB_upto h (Suc t))
             (between_class_variance h total_px t) t
      else otsu_loop h sm total_px (Suc t) (sumB_upto h (Suc t)) (wB_upto h (Suc t)) M th)"
proof -
  have a: "wB + int (h ! t) = wB_upto h (Suc t)" using assms(2) by (simp add: wB_upto_Suc)
  have b: "sumB + int t * int (h ! t) = sumB_upto h (Suc t)"
    using assms(3) by (simp add: sumB_upto_Suc)
  have c: "total_px - wB_upto h (Suc t) \<noteq> 0" using assms(6) by simp
  show ?thesis
    apply (subst otsu_loop.simps)
    apply (simp only: Let_def a b assms(1) assms(4) assms(5) c if_True if_False variance_code)
    apply simp
    done
qed

lemma otsu_loop_inv:
  assumes tot: "total_px = wB_upto h 256" and sm: "sm = sumB_upto h 256"
  shows "256 - t = k \<Longrightarrow> t \<le> 256 \<Longrightarrow> wB = wB_upto h t \<Longrightarrow> sumB = sumB_upto h t \<Longrightarrow> 0 \<le> M \<Longrightarrow>
     (\<forall>u<t. between_class_variance h total_px u \<le> M) \<Longrightarrow>
     (M = 0 \<longrightarrow> th = 0) \<Longrightarrow>
     (0 < M \<longrightarrow> th < t \<and> between_class_variance h total_px th = M \<and>
           (\<forall>u<th. between_class_variance h total_px u < M)) \<Longrightarrow>
     earliest_max (between_class_variance h total_px) (otsu_loop h sm total_px t sumB wB M th)"
proof (induction k arbitrary: t wB sumB M th)
  case 0
  let ?V = "between_class_variance h total_px"
  have t: "t = 256" using 0 by simp
  have nonneg0: "0 \<le> ?V 0"
    using wB_upto_mono[of "Suc 0" 256 h] tot by (intro variance_nonneg) simp
  have ge: "M \<le> ?V th" using 0 nonneg0 by (cases "M = 0") auto
  have "th < 256" using 0 t by (cases "M = 0") auto
  moreover have "\<forall>u<256. ?V u \<le> ?V th" using 0(6) ge t by force
  moreover have "\<forall>u<th. ?V u < ?V th" using 0 by (cases "M = 0") auto
  ultimately show ?case using t by (simp add: otsu_loop_exit earliest_max_def)
next
  case (Suc k)
  let ?V = "between_class_variance h total_px"
  have t: "t < 256" and k: "256 - Suc t = k" and t': "Suc t \<le> 256" using Suc.prems(1) by simp_all
  have nonneg: "0 \<le> ?V u" if "u < 256" for u
  proof -
    have "wB_upto h (Suc u) \<le> wB_upto h 256" using that by (intro wB_upto_mono) simp
    then show ?thesis using tot by (intro variance_nonneg) simp
  qed
  show ?case
  proof (cases "wB_upto h (Suc t) = 0")
    case z: True
    have h0: "h ! t = 0" using z wB_upto_nonneg[of h t] by (simp add: wB_upto_Suc)
    have Vt: "?V t = 0" using z by (rule variance_zero_wB)
    have "earliest_max ?V (otsu_loop h sm total_px (Suc t) sumB (wB_upto h (Suc t)) M th)"
    proof (rule Suc.IH[OF k t' refl])
      show "sumB = sumB_upto h (Suc t)" using Suc.prems(4) h0 by (simp add: sumB_upto_Suc)
      show "0 \<le> M" by fact
      show "\<forall>u<Suc t. ?V u \<le> M" using Suc.prems(5,6) Vt by (auto simp: less_Suc_eq)
      show "M = 0 \<longrightarrow> th = 0" by fact
      show "0 < M \<longrightarrow> th < Suc t \<and> ?V th = M \<and> (\<forall>u<th. ?V u < M)" using Suc.prems(8) by auto
    qed
    then show ?thesis using otsu_loop_continue[OF t Suc.prems(3) z] by simp
  next
    case nz: False
    show ?thesis
    proof (cases "total_px = wB_upto h (Suc t)")
      case brk: True
      have rest: "?V u = 0" if "u < 256" "t \<le> u" for u
      proof -
        have "wB_upto h (Suc t) \<le> wB_upto h (Suc u)" using that by (intro wB_upto_mono) simp
        moreover have "wB_upto h (Suc u) \<le> wB_upto h 256" using that by (intro wB_upto_mono) simp
        ultimately have "wB_upto h (Suc u) = total_px" using brk tot by simp
        then show ?thesis by (rule variance_zero_wF)
      qed
      have ge: "M \<le> ?V th" using Suc.prems(5,7,8) nonneg[of 0] by (cases "M = 0") auto
      have "th < 256" using Suc.prems(5,7,8) t by (cases "M = 0") auto
      moreover have "?V u \<le> ?V th" if "u < 256" for u
      proof (cases "u < t")
        case True
        then show ?thesis using Suc.prems(6) ge by force
      next
        case False
        then have "?V u = 0" using rest that by simp
        then show ?thesis using ge Suc.prems(5) by simp
      qed
      moreover have "\<forall>u<th. ?V u < ?V th" using Suc.prems(5,7,8) by (cases "M = 0") auto
      ultimately have "earliest_max ?V th" by (simp add: earliest_max_def)
      then show ?thesis using otsu_loop_break[OF t Suc.prems(3) nz brk] by simp
    next
      case go: False
      note step = otsu_loop_scan[OF t Suc.prems(3) Suc.prems(4) sm nz go, of M th]
      show ?thesis
      proof (cases "?V t > M")
        case up: True
        have "earliest_max ?V (otsu_loop h sm total_px (Suc t) (sumB_upto h (Suc t))
                 (wB_upto h (Suc t)) (?V t) t)"
        proof (rule Suc.IH[OF k t' refl refl])
          show "0 \<le> ?V t" using up Suc.prems(5) by simp
          show "\<forall>u<Suc t. ?V u \<le> ?V t" using Suc.prems(6) up by (force simp: less_Suc_eq)
          show "?V t = 0 \<longrightarrow> t = 0" using up Suc.prems(5) by simp
          show "0 < ?V t \<longrightarrow> t < Suc t \<and> ?V t = ?V t \<and> (\<forall>u<t. ?V u < ?V t)"
            using Suc.prems(6) up by force
        qed
        then show ?thesis using step up by simp
      next
        case keep: False
        have "earliest_max ?V (otsu_loop h sm total_px (Suc t) (sumB_upto h (Suc t))
                 (wB_upto h (Suc t)) M th)"
        proof (rule Suc.IH[OF k t' refl refl])
          show "0 \<le> M" by fact
          show "\<forall>u<Suc t. ?V u \<le> M" using Suc.prems(6) keep by (auto simp: less_Suc_eq)
          show "M = 0 \<longrightarrow> th = 0" by fact
          show "0 < M \<longrightarrow> th < Suc t \<and> ?V th = M \<and> (\<forall>u<th. ?V u < M)"
            using Suc.prems(8) by auto
        qed
        then show ?thesis using step keep by simp
      qed
    qed
  qed
qed

lemma otsu_threshold_earliest_max:
  assumes "total_px = wB_upto h 256"
  shows "earliest_max (between_class_variance h total_px) (otsu_threshold h total_px)"
  unfolding otsu_threshold_def
  by (rule otsu_loop_inv[OF assms weighted_sum_eq refl]) (simp_all add: wB_upto_0 sumB_upto_0)

section \<open>The histogram counts the pixels\<close>

lemma length_build_histogram: "length (build_histogram d h) = length h"
  by (induction d h rule: build_histogram.induct) simp_all

lemma unat_less_256: "unat (r :: 8 word) < 256"
  using unsigned_less[of r, where 'a = nat] by simp

lemma sum_list_bump: "i < length h \<Longrightarrow> sum_list (h[i := Suc (h ! i)]) = Suc (sum_list h)"
  by (simp add: sum_list_update)

lemma sum_list_map_int: "sum_list (map int h) = int (sum_list h)"
  by (induction h) simp_all

lemma sum_list_build_histogram:
  "length h = 256 \<Longrightarrow> sum_list (build_histogram d h) = sum_list h + (length d + 3) div 4"
proof (induction d h rule: build_histogram.induct)
  case (1 r g b a rest h)
  have "unat r < length h" using "1.prems" unat_less_256[of r] by simp
  then show ?case using 1 by (simp add: sum_list_bump)
next
  case (2 r g b h)
  have "unat r < length h" using "2.prems" unat_less_256[of r] by simp
  then show ?case by (simp add: sum_list_bump)
next
  case (3 r g h)
  have "unat r < length h" using "3.prems" unat_less_256[of r] by simp
  then show ?case by (simp add: sum_list_bump)
next
  case (4 r h)
  have "unat r < length h" using "4.prems" unat_less_256[of r] by simp
  then show ?case by (simp add: sum_list_bump)
next
  case (5 h)
  then show ?case by simp
qed

lemma wB_upto_length: "wB_upto h (length h) = int (sum_list h)"
proof -
  have "map (\<lambda>i. int (h ! i)) [0..<length h] = map int (map ((!) h) [0..<length h])"
    by simp
  also have "\<dots> = map int h" by (simp only: map_nth)
  finally show ?thesis unfolding wB_upto_def by (simp only: sum_list_map_int)
qed

lemma wB_upto_all: "length h = 256 \<Longrightarrow> wB_upto h 256 = int (sum_list h)"
  using wB_upto_length[of h] by simp

lemma histogram_total:
  assumes "length d = 4 * n"
  shows "wB_upto (histogram_of d) 256 = int n"
proof -
  have "length (histogram_of d) = 256" by (simp add: histogram_of_def length_build_histogram)
  moreover have "sum_list (histogram_of d) = n"
    using assms by (simp add: histogram_of_def sum_list_build_histogram)
  ultimately show ?thesis by (simp add: wB_upto_all)
qed

lemma count_list_bump:
  "i < length h \<Longrightarrow> j < length h \<Longrightarrow>
   (h[i := Suc (h ! i)]) ! j = h ! j + (if i = j then 1 else 0)"
  by (simp add: nth_list_update)

lemma build_histogram_nth:
  "length h = 256 \<Longrightarrow> i < 256 \<Longrightarrow>
   build_histogram d h ! i = h ! i + count_list (intensities d) i"
proof (induction d h rule: build_histogram.induct)
  case (1 r g b a rest h)
  have r: "unat r < length h" using "1.prems" unat_less_256[of r] by simp
  have "build_histogram rest (h[unat r := Suc (h ! unat r)]) ! i =
        (h[unat r := Suc (h ! unat r)]) ! i + count_list (intensities rest) i"
    using "1.IH" "1.prems" by simp
  then show ?case using r "1.prems" by (simp add: count_list_bump)
next
  case (2 r g b h)
  have "unat r < length h" using "2.prems" unat_less_256[of r] by simp
  then show ?case using "2.prems" by (simp add: count_list_bump)
next
  case (3 r g h)
  have "unat r < length h" using "3.prems" unat_less_256[of r] by simp
  then show ?case using "3.prems" by (simp add: count_list_bump)
next
  case (4 r h)
  have "unat r < length h" using "4.prems" unat_less_256[of r] by simp
  then show ?case using "4.prems" by (simp add: count_list_bump)
next
  case (5 h)
  then show ?case by simp
qed

lemma histogram_of_nth: "i < 256 \<Longrightarrow> histogram_of d ! i = count_list (intensities d) i"
  by (simp add: histogram_of_def build_histogram_nth)

lemma intensities_less: "v \<in> set (intensities d) \<Longrightarrow> v < 256"
  by (induction d rule: intensities.induct) (auto simp: unat_less_256)

lemma length_intensities: "length d = 4 * n \<Longrightarrow> length (intensities d) = n"
proof (induction d arbitrary: n rule: intensities.induct)
  case (1 r g b a rest)
  then obtain m where "n = Suc m" by (cases n) auto
  then show ?case using 1 by simp
qed auto

lemma intensities_nth: "4 * p < length d \<Longrightarrow> intensities d ! p = unat (d ! (4 * p))"
proof (induction d arbitrary: p rule: intensities.induct)
  case (1 r g b a rest)
  show ?case
  proof (cases p)
    case 0
    then show ?thesis by simp
  next
    case (Suc q)
    then have "4 * q < length rest" using "1.prems" by simp
    then have "intensities rest ! q = unat (rest ! (4 * q))" by (rule "1.IH")
    moreover have "(r # g # b # a # rest) ! (4 * Suc q) = rest ! (4 * q)"
      by (simp add: numeral_Bit0)
    ultimately show ?thesis using Suc by simp
  qed
next
  case (2 r g b)
  then show ?case by (cases p) simp_all
next
  case (3 r g)
  then show ?case by (cases p) simp_all
next
  case (4 r)
  then show ?case by (cases p) simp_all
next
  case 5
  then show ?case by simp
qed

lemma filter_less_Suc_length:
  "length (filter (\<lambda>v. v < Suc k) px) = length (filter (\<lambda>v. v < k) px) + count_list px k"
  by (induction px) auto

lemma filter_less_Suc_sum:
  "sum_list (filter (\<lambda>v. v < Suc k) px) = sum_list (filter (\<lambda>v. v < k) px) + k * count_list px k"
  by (induction px) auto

lemma wB_upto_pixels:
  "k \<le> 256 \<Longrightarrow> wB_upto (histogram_of d) k = int (length (filter (\<lambda>v. v < k) (intensities d)))"
proof (induction k)
  case 0
  then show ?case by (simp add: wB_upto_0)
next
  case (Suc k)
  then show ?case
    by (simp only: wB_upto_Suc filter_less_Suc_length) (simp add: histogram_of_nth)
qed

lemma sumB_upto_pixels:
  "k \<le> 256 \<Longrightarrow> sumB_upto (histogram_of d) k = int (sum_list (filter (\<lambda>v. v < k) (intensities d)))"
proof (induction k)
  case 0
  then show ?case by (simp add: sumB_upto_0)
next
  case (Suc k)
  then show ?case
    by (simp only: sumB_upto_Suc filter_less_Suc_sum) (simp add: histogram_of_nth)
qed

lemma length_filter_split:
  "length (filter (\<lambda>v. t < v) px) = length px - length (filter (\<lambda>v. v \<le> (t::nat)) px)"
  by (induction px) (auto simp: Suc_diff_le)

lemma sum_filter_le: "sum_list (filter P px) \<le> sum_list (px :: nat list)"
  by (induction px) auto

lemma sum_filter_split:
  "sum_list (filter (\<lambda>v. t < v) px) = sum_list px - sum_list (filter (\<lambda>v. v \<le> (t::nat)) px)"
proof (induction px)
  case Nil
  then show ?case by simp
next
  case (Cons a px)
  then show ?case using sum_filter_le[of "\<lambda>v. v \<le> t" px] by auto
qed

lemma filter_all_less: "(\<And>v. v \<in> set px \<Longrightarrow> v < k) \<Longrightarrow> filter (\<lambda>v. v < k) px = px"
  by (induction px) auto

lemma variance_pixels:
  assumes "length d = 4 * n" and "t < 256"
  shows "between_class_variance (histogram_of d) (int n) t = computed_variance (intensities d) t"
proof -
  let ?px = "intensities d"
  have le: "(\<lambda>v. v < Suc t) = (\<lambda>v. v \<le> t)" by (auto simp: less_Suc_eq_le)
  have n: "length ?px = n" using assms(1) by (rule length_intensities)
  have wB: "wB_upto (histogram_of d) (t + 1) = int (length (filter (\<lambda>v. v \<le> t) ?px))"
    using assms(2) by (simp add: wB_upto_pixels le)
  have sB: "sumB_upto (histogram_of d) (t + 1) = int (sum_list (filter (\<lambda>v. v \<le> t) ?px))"
    using assms(2) by (simp add: sumB_upto_pixels le)
  have s: "sumB_upto (histogram_of d) 256 = int (sum_list ?px)"
    by (simp add: sumB_upto_pixels filter_all_less intensities_less)
  have l1: "length (filter (\<lambda>v. v \<le> t) ?px) \<le> n" using n length_filter_le by metis
  have l2: "sum_list (filter (\<lambda>v. v \<le> t) ?px) \<le> sum_list ?px"
    by (rule sum_filter_le)
  have wF: "int n - int (length (filter (\<lambda>v. v \<le> t) ?px)) = int (length (filter (\<lambda>v. t < v) ?px))"
    using l1 n by (simp add: length_filter_split of_nat_diff)
  have sF: "int (sum_list ?px) - int (sum_list (filter (\<lambda>v. v \<le> t) ?px))
            = int (sum_list (filter (\<lambda>v. t < v) ?px))"
    using l2 by (simp add: sum_filter_split of_nat_diff)
  show ?thesis
    unfolding between_class_variance_def computed_variance_def Let_def wB sB s wF sF
    by simp
qed

section \<open>The threshold step\<close>

lemma selected_threshold_earliest_max:
  assumes "valid_raster c"
  shows "earliest_max (computed_variance (intensities (gray_of c))) (selected_threshold c)"
proof -
  let ?n = "width c * height c"
  let ?h = "histogram_of (gray_of c)"
  have len: "length (gray_of c) = 4 * ?n"
    using assms by (simp add: gray_of_def length_grayscale_pass valid_raster_def)
  have "int ?n = wB_upto ?h 256" using histogram_total[OF len] by simp
  then have "earliest_max (between_class_variance ?h (int ?n)) (otsu_threshold ?h (int ?n))"
    by (rule otsu_threshold_earliest_max)
  moreover have "between_class_variance ?h (int ?n) u = computed_variance (intensities (gray_of c)) u"
    if "u < 256" for u using len that by (rule variance_pixels)
  ultimately have "earliest_max (computed_variance (intensities (gray_of c))) (otsu_threshold ?h (int ?n))"
    unfolding earliest_max_def by (auto dest: less_trans)
  then show ?thesis by (simp add: selected_threshold_def)
qed

lemma preprocessImage_pixel:
  assumes "valid_raster c" and "p < width c * height c" and "ch < 3"
  shows "data (preprocessImage c) ! (4 * p + ch) =
         (if selected_threshold c < intensities (gray_of c) ! p then 255 else 0)"
proof -
  have len: "length (gray_of c) = 4 * (width c * height c)"
    using assms(1) by (simp add: gray_of_def length_grayscale_pass valid_raster_def)
  have i: "4 * p + ch < length (gray_of c)" using len assms(2,3) by simp
  have m: "(4 * p + ch) mod 4 = ch" using assms(3) by simp
  have "data (preprocessImage c) ! (4 * p + ch) =
        threshold_value (selected_threshold c) (gray_of c ! (4 * p))"
    using threshold_pass_nth[OF i, of "selected_threshold c"] m assms(3)
    by (simp add: data_preprocessImage selected_threshold_def gray_of_def)
  moreover have "intensities (gray_of c) ! p = unat (gray_of c ! (4 * p))"
    using i by (intro intensities_nth) simp
  ultimately show ?thesis by (simp add: threshold_value_def)
qed


text \<open>The 4 x 1 raster evaluated: grey levels 0, 1, 1, 2, and the scan ends on threshold 1.\<close>

lemma valid_tie_canvas: "valid_raster tie_canvas"
  by (simp add: valid_raster_def tie_canvas_def)

lemma tie_canvas_intensities: "intensities (gray_of tie_canvas) = [0, 1, 1, 2]"
  by code_simp

lemma tie_canvas_threshold: "selected_threshold tie_canvas = 1"
  by code_simp

text \<open>The pixel (0, 80, 110): the exact luminance is 59.5, the sum computed in doubles is
  below it, and the byte stored is 59.\<close>

lemma grayscale_rounds_below_half:
  "grayscale 0 80 110 < 119 / 2 \<and> toUint8Clamp (grayscale 0 80 110) = 59"
  by code_simp

section \<open>A second pass changes nothing\<close>

lemma bw_pixels_threshold_pass: "length d mod 4 = 0 \<Longrightarrow> bw_pixels (threshold_pass th d)"
proof (induction th d rule: threshold_pass.induct)
  case (1 th r g b a rest)
  then show ?case by (simp add: Let_def binary_threshold_value)
qed simp_all

lemma toUint8Clamp_black: "toUint8Clamp (grayscale 0 0 0) = 0"
  by code_simp

lemma toUint8Clamp_white: "toUint8Clamp (grayscale 255 255 255) = 255"
  by code_simp

lemma grayscale_pass_bw: "bw_pixels d \<Longrightarrow> grayscale_pass d = d"
  by (induction d rule: bw_pixels.induct)
     (auto simp: binary_def toUint8Clamp_black toUint8Clamp_white)

lemma threshold_value_bw: "binary v \<Longrightarrow> threshold_value 0 v = v"
  by (auto simp: binary_def threshold_value_def)

lemma threshold_pass_bw: "bw_pixels d \<Longrightarrow> threshold_pass 0 d = d"
  by (induction d rule: bw_pixels.induct) (auto simp: threshold_value_bw)

lemma intensities_bw: "bw_pixels d \<Longrightarrow> v \<in> set (intensities d) \<Longrightarrow> v = 0 \<or> v = 255"
  by (induction d rule: bw_pixels.induct) (auto simp: binary_def)

lemma computed_variance_bw:
  assumes "\<And>v. v \<in> set px \<Longrightarrow> v = 0 \<or> v = (255::nat)" and "u < 255"
  shows "computed_variance px u = computed_variance px 0"
proof -
  have "v \<le> u \<longleftrightarrow> v \<le> 0" "u < v \<longleftrightarrow> 0 < v" if "v \<in> set px" for v
    using assms(1)[OF that] assms(2) by auto
  then have "filter (\<lambda>v. v \<le> u) px = filter (\<lambda>v. v \<le> 0) px"
    "filter (\<lambda>v. u < v) px = filter (\<lambda>v. 0 < v) px"
    by (simp_all cong: filter_cong)
  moreover note refl
  ultimately show ?thesis by (simp add: computed_variance_def)
qed

lemma computed_variance_nonneg: "0 \<le> computed_variance px u"
  unfolding computed_variance_def Let_def by (rule double_variance_nonneg) simp_all

lemma computed_variance_top:
  assumes "\<And>v. v \<in> set px \<Longrightarrow> v \<le> u"
  shows "computed_variance px u = 0"
proof -
  have "filter (\<lambda>v. u < v) px = []" using assms by (auto simp: filter_empty_conv not_less)
  then show ?thesis by (simp add: computed_variance_def double_variance_zero_wF)
qed

lemma earliest_max_bw:
  assumes "\<And>v. v \<in> set px \<Longrightarrow> v = 0 \<or> v = (255::nat)" and "earliest_max (computed_variance px) r"
  shows "r = 0"
proof (rule ccontr)
  assume "r \<noteq> 0"
  from assms(2) have "\<forall>u<r. computed_variance px u < computed_variance px r"
    unfolding earliest_max_def by (elim conjE)
  with \<open>r \<noteq> 0\<close> have lt: "computed_variance px 0 < computed_variance px r" by simp
  have "computed_variance px r \<le> computed_variance px 0"
  proof (cases "r < 255")
    case True
    then have "computed_variance px r = computed_variance px 0"
      using assms(1) by (rule computed_variance_bw[rotated])
    then show ?thesis by simp
  next
    case False
    have "v \<le> r" if "v \<in> set px" for v
      using assms(1)[OF that] False by linarith
    then have "computed_variance px r = 0" by (rule computed_variance_top)
    then show ?thesis by (simp only: computed_variance_nonneg)
  qed
  with lt show False by simp
qed

lemma preprocessImage_fixed:
  assumes "valid_raster c" and "bw_pixels (data c)"
  shows "preprocessImage c = c"
proof -
  have g: "gray_of c = data c" using assms(2) by (simp add: gray_of_def grayscale_pass_bw)
  have "selected_threshold c = 0"
    using selected_threshold_earliest_max[OF assms(1)] intensities_bw[OF assms(2)]
    unfolding g by (intro earliest_max_bw) auto
  then have "data (preprocessImage c) = data c"
    using assms(2) g
    by (simp add: data_preprocessImage selected_threshold_def gray_of_def threshold_pass_bw)
  moreover have "preprocessImage c = c\<lparr>data := data (preprocessImage c)\<rparr>"
    by (simp add: preprocessImage_def Let_def)
  ultimately show ?thesis by simp
qed

lemma preprocessImage_twice:
  assumes "valid_raster c"
  shows "preprocessImage (preprocessImage c) = preprocessImage c"
proof (rule preprocessImage_fixed)
  have w: "width (preprocessImage c) = width c" "height (preprocessImage c) = height c"
    by (simp_all add: preprocessImage_def Let_def)
  have len: "length (grayscale_pass (data c)) = 4 * (width c * height c)"
    using assms by (simp add: length_grayscale_pass valid_raster_def)
  show "valid_raster (preprocessImage c)"
    using len by (simp add: valid_raster_def w data_preprocessImage length_threshold_pass)
  show "bw_pixels (data (preprocessImage c))"
    using len by (simp add: data_preprocessImage bw_pixels_threshold_pass)
qed


lemma valid_binarized_canvas: "valid_raster binarized_canvas"
  by (simp add: valid_raster_def binarized_canvas_def)

lemma binarized_binarized_canvas: "binarized (data binarized_canvas)"
  by (simp add: binarized_def binarized_canvas_def binary_def upt_rec)

section \<open>The extractor throws no exception\<close>

lemma rmatch_keeps_capture:
  "(pv', seen', s', c') \<in> set (rmatch r (pv, seen, s, c)) \<Longrightarrow> c \<noteq> None \<Longrightarrow> c' \<noteq> None"
proof (induction r arbitrary: pv seen s c pv' seen' s' c')
  case (Seq a b)
  from Seq.prems(1) obtain st where st: "st \<in> set (rmatch a (pv, seen, s, c))"
    and fin: "(pv', seen', s', c') \<in> set (rmatch b st)" by auto
  obtain pv1 seen1 s1 c1 where st_eq: "st = (pv1, seen1, s1, c1)" by (cases st) auto
  have "c1 \<noteq> None" using Seq.IH(1) st Seq.prems(2) unfolding st_eq by blast
  then show ?case using Seq.IH(2) fin unfolding st_eq by blast
next
  case (Alt a b)
  then show ?case by auto
next
  case (Class p)
  then show ?case by (auto split: list.splits if_splits)
next
  case (Repeat p m n)
  then show ?case by (auto simp: advance_def)
next
  case (RepeatLazy p m n)
  then show ?case by (auto simp: advance_def)
next
  case (Group r)
  then show ?case by auto
next
  case WordBoundary
  then show ?case by (auto split: if_splits)
next
  case Start
  then show ?case by (auto split: if_splits)
next
  case End
  then show ?case by (auto split: if_splits)
next
  case Eps
  then show ?case by auto
qed

lemma rmatch_captures:
  "captures r \<Longrightarrow> (pv', seen', s', c') \<in> set (rmatch r (pv, seen, s, c)) \<Longrightarrow> c' \<noteq> None"
proof (induction r arbitrary: pv seen s c pv' seen' s' c')
  case (Seq a b)
  from Seq.prems(2) obtain st where st: "st \<in> set (rmatch a (pv, seen, s, c))"
    and fin: "(pv', seen', s', c') \<in> set (rmatch b st)" by auto
  obtain pv1 seen1 s1 c1 where st_eq: "st = (pv1, seen1, s1, c1)" by (cases st) auto
  show ?case
  proof (cases "captures a")
    case True
    then have "c1 \<noteq> None" using Seq.IH(1) st unfolding st_eq by blast
    then show ?thesis using rmatch_keeps_capture fin unfolding st_eq by blast
  next
    case False
    then have "captures b" using Seq.prems(1) by simp
    then show ?thesis using Seq.IH(2) fin unfolding st_eq by blast
  qed
next
  case (Alt a b)
  then show ?case by auto
qed auto

lemma match_here_captures:
  assumes "captures r" and "match_here r pv s = Some m"
  shows "m1 m \<noteq> None"
proof -
  from assms(2) obtain pv' seen' s' c' rest
    where r: "rmatch r (pv, [], s, None) = (pv', seen', s', c') # rest" and m: "m1 m = c'"
    by (auto simp: match_here_def split: list.splits)
  then have "(pv', seen', s', c') \<in> set (rmatch r (pv, [], s, None))" by simp
  then show ?thesis using rmatch_captures[OF assms(1)] m by metis
qed

lemma exec_from_captures:
  "captures r \<Longrightarrow> exec_from r pv s = Some m \<Longrightarrow> m1 m \<noteq> None"
proof (induction s arbitrary: pv)
  case Nil
  then show ?case using match_here_captures[of r pv "[]" m] by simp
next
  case (Cons x xs)
  show ?case
  proof (cases "match_here r pv (x # xs)")
    case None
    then show ?thesis using Cons by simp
  next
    case (Some m')
    then have "m' = m" using Cons.prems(2) by simp
    then show ?thesis using match_here_captures[OF Cons.prems(1) Some] by simp
  qed
qed

lemma exec_captures: "captures r \<Longrightarrow> exec r s = Some m \<Longrightarrow> m1 m \<noteq> None"
  unfolding exec_def by (rule exec_from_captures)

lemma matchAll_from_captures:
  "captures r \<Longrightarrow> m \<in> set (matchAll_from r pv s skip) \<Longrightarrow> m1 m \<noteq> None"
proof (induction s arbitrary: pv skip)
  case Nil
  show ?case
  proof (cases "match_here r pv []")
    case None
    then show ?thesis using Nil(2) by (cases "skip = 0") simp_all
  next
    case (Some m')
    then have "m = m'" using Nil(2) by (cases "skip = 0") simp_all
    then show ?thesis using match_here_captures[OF Nil(1) Some] by simp
  qed
next
  case (Cons x xs)
  show ?case
  proof (cases "skip > 0")
    case True
    then show ?thesis using Cons by simp
  next
    case False
    show ?thesis
    proof (cases "match_here r pv (x # xs)")
      case None
      then show ?thesis using Cons False by simp
    next
      case (Some m')
      then have "m = m' \<or> m \<in> set (matchAll_from r (Some x) xs (length (m0 m') - 1))"
        using Cons.prems(2) False by simp
      then show ?thesis
      proof
        assume "m = m'"
        then show ?thesis using match_here_captures[OF Cons.prems(1) Some] by simp
      next
        assume "m \<in> set (matchAll_from r (Some x) xs (length (m0 m') - 1))"
        then show ?thesis by (rule Cons.IH[OF Cons.prems(1)])
      qed
    qed
  qed
qed

lemma matchAll_captures: "captures r \<Longrightarrow> m \<in> set (matchAll r s) \<Longrightarrow> m1 m \<noteq> None"
  unfolding matchAll_def by (rule matchAll_from_captures)

lemma amount_items_total:
  "(\<And>m. m \<in> set ms \<Longrightarrow> m1 m \<noteq> None) \<Longrightarrow> \<exists>items. amount_items ms = Inr items"
proof (induction ms)
  case Nil
  then show ?case by simp
next
  case (Cons m ms)
  then obtain items where "amount_items ms = Inr items" by auto
  moreover obtain g where "m1 m = Some g" using Cons.prems[of m] by auto
  ultimately show ?case by (simp add: Let_def)
qed

lemma captures_keyword_date: "captures keyword_date"
  by (simp add: keyword_date_def seqs_def)

lemma captures_currency_amount: "captures currency_amount"
  by (simp add: currency_amount_def seqs_def)

lemma last_totalPatterns: "last totalPatterns = currency_amount"
  by (simp add: totalPatterns_def)

lemma butlast_totalPatterns:
  "butlast totalPatterns = [total_phrase, total_keyword, amount_then_keyword]"
  by (simp add: totalPatterns_def)

lemma try_date_patterns_no_error:
  "(\<And>p. (p, True) \<in> set ps \<Longrightarrow> captures p) \<Longrightarrow> \<exists>d. try_date_patterns ps clean = Inr d"
proof (induction ps)
  case Nil
  then show ?case by simp
next
  case (Cons a ps)
  obtain p k where a: "a = (p, k)" by (cases a) auto
  have IH: "\<exists>d. try_date_patterns ps clean = Inr d" using Cons by auto
  show ?case
  proof (cases k)
    case True
    then have cp: "captures p" using Cons.prems a by auto
    show ?thesis
    proof (cases "exec p clean")
      case None
      then show ?thesis using IH a True by simp
    next
      case (Some m)
      then obtain g where "m1 m = Some g" using exec_captures[OF cp] by auto
      then show ?thesis using IH a True Some by (auto simp: Let_def)
    qed
  next
    case False
    then show ?thesis using IH a by (auto split: option.splits list.splits)
  qed
qed

lemma extractDate_no_error: "\<exists>d. extractDate txt = Inr d"
  unfolding extractDate_def
  by (rule try_date_patterns_no_error) (auto simp: datePatterns_def captures_keyword_date)

lemma largest_amount_no_error: "\<exists>t. largest_amount clean = Inr t"
proof -
  obtain items where "amount_items (matchAll (last totalPatterns) clean) = Inr items"
    using amount_items_total[of "matchAll currency_amount clean"]
      matchAll_captures[OF captures_currency_amount]
    unfolding last_totalPatterns by blast
  then show ?thesis by (auto simp: largest_amount_def Let_def split: list.splits)
qed

lemma extractTotal_no_error: "\<exists>t. extractTotal txt = Inr t"
  using largest_amount_no_error by (auto simp: extractTotal_def Let_def split: option.splits)

text \<open>Four texts: nothing to find, only a date, only a total, only a merchant.\<close>

lemma billData_of_empty:
  "billData_of [] = Inr \<lparr>fullText = [], date = None, total = None, merchant = None\<rparr>"
  by code_simp

lemma billData_of_date_only:
  "billData_of ''1/2/2024'' =
     Inr \<lparr>fullText = ''1/2/2024'', date = Some ''1/2/2024'', total = None, merchant = None\<rparr>"
  by code_simp

lemma billData_of_total_only:
  "billData_of ''$5.00'' =
     Inr \<lparr>fullText = ''$5.00'', date = None, total = Some ''5.00'', merchant = None\<rparr>"
  by code_simp

lemma billData_of_merchant_only:
  "billData_of ''ACME'' =
     Inr \<lparr>fullText = ''ACME'', date = None, total = None, merchant = Some ''ACME''\<rparr>"
  by code_simp

section \<open>What the matcher finds is a match\<close>

lemma splits_sound:
  "(taken, rest) \<in> set (splits p m n acc s) \<Longrightarrow>
   \<exists>w. taken = acc @ w \<and> s = w @ rest \<and> list_all p w \<and> bounded m n (length w)"
proof (induction s arbitrary: m n acc)
  case Nil
  then show ?case
    by (subst (asm) splits.simps) (auto simp: bounded_def split: if_splits option.splits)
next
  case (Cons x xs)
  from Cons.prems have "(m = 0 \<and> taken = acc \<and> rest = x # xs) \<or>
     (n \<noteq> Some 0 \<and> p x \<and>
      (taken, rest) \<in> set (splits p (m - 1) (map_option (\<lambda>b. b - 1) n) (acc @ [x]) xs))"
    by (subst (asm) splits.simps) (auto split: if_splits)
  then show ?case
  proof
    assume "m = 0 \<and> taken = acc \<and> rest = x # xs"
    then show ?thesis by (auto simp: bounded_def split: option.splits)
  next
    assume a: "n \<noteq> Some 0 \<and> p x \<and>
      (taken, rest) \<in> set (splits p (m - 1) (map_option (\<lambda>b. b - 1) n) (acc @ [x]) xs)"
    then obtain w where w: "taken = (acc @ [x]) @ w" "xs = w @ rest" "list_all p w"
      "bounded (m - 1) (map_option (\<lambda>b. b - 1) n) (length w)"
      using Cons.IH by blast
    have "bounded m n (length (x # w))"
      using w(4) a by (cases n) (auto simp: bounded_def)
    then show ?thesis using w a by (intro exI[of _ "x # w"]) simp
  qed
qed

lemma sublist_app_left: "sublist g u \<Longrightarrow> sublist g (u @ v)"
  by (meson sublist_append_rightI sublist_order.order_trans)

lemma sublist_app_right: "sublist g v \<Longrightarrow> sublist g (u @ v)"
  by (meson sublist_append_leftI sublist_order.order_trans)

text \<open>What a match consumes and what it captures.\<close>

lemma rmatch_sound:
  "(pv', seen', s', c') \<in> set (rmatch r (pv, seen, s, c)) \<Longrightarrow>
   \<exists>w. seen' = rev w @ seen \<and> s = w @ s' \<and> w \<in> lang r \<and>
       (c' = c \<or> (\<exists>g. c' = Some g \<and> g \<in> group_lang r \<and> sublist g w))"
proof (induction r arbitrary: pv seen s c pv' seen' s' c')
  case (Class p)
  then show ?case by (auto split: list.splits if_splits)
next
  case Eps
  then show ?case by auto
next
  case (Seq a b)
  from Seq.prems obtain st where st: "st \<in> set (rmatch a (pv, seen, s, c))"
    and fin: "(pv', seen', s', c') \<in> set (rmatch b st)" by auto
  obtain pv1 seen1 s1 c1 where st_eq: "st = (pv1, seen1, s1, c1)" by (cases st) auto
  from Seq.IH(1)[OF st[unfolded st_eq]] obtain w1 where
    w1: "seen1 = rev w1 @ seen" "s = w1 @ s1" "w1 \<in> lang a"
    "c1 = c \<or> (\<exists>g. c1 = Some g \<and> g \<in> group_lang a \<and> sublist g w1)" by blast
  from Seq.IH(2)[OF fin[unfolded st_eq]] obtain w2 where
    w2: "seen' = rev w2 @ seen1" "s1 = w2 @ s'" "w2 \<in> lang b"
    "c' = c1 \<or> (\<exists>g. c' = Some g \<and> g \<in> group_lang b \<and> sublist g w2)" by blast
  have "seen' = rev (w1 @ w2) @ seen" "s = (w1 @ w2) @ s'" using w1 w2 by simp_all
  moreover have "w1 @ w2 \<in> lang (Seq a b)" using w1(3) w2(3) by auto
  moreover have "c' = c \<or> (\<exists>g. c' = Some g \<and> g \<in> group_lang (Seq a b) \<and> sublist g (w1 @ w2))"
    using w1(4) w2(4) by (auto intro: sublist_app_left sublist_app_right)
  ultimately show ?case by blast
next
  case (Alt a b)
  from Alt.prems have "(pv', seen', s', c') \<in> set (rmatch a (pv, seen, s, c)) \<or>
    (pv', seen', s', c') \<in> set (rmatch b (pv, seen, s, c))" by auto
  then show ?case
  proof
    assume "(pv', seen', s', c') \<in> set (rmatch a (pv, seen, s, c))"
    from Alt.IH(1)[OF this] show ?thesis by auto
  next
    assume "(pv', seen', s', c') \<in> set (rmatch b (pv, seen, s, c))"
    from Alt.IH(2)[OF this] show ?thesis by auto
  qed
next
  case (Repeat p m n)
  then obtain taken rest where tr: "(taken, rest) \<in> set (splits p m n [] s)"
    and eq: "(pv', seen', s', c') = advance taken rest (pv, seen, s, c)" by auto
  from splits_sound[OF tr] obtain w where "taken = w" "s = w @ rest" "list_all p w"
    "bounded m n (length w)" by auto
  then show ?case using eq by (auto simp: advance_def)
next
  case (RepeatLazy p m n)
  then obtain taken rest where tr: "(taken, rest) \<in> set (splits p m n [] s)"
    and eq: "(pv', seen', s', c') = advance taken rest (pv, seen, s, c)" by auto
  from splits_sound[OF tr] obtain w where "taken = w" "s = w @ rest" "list_all p w"
    "bounded m n (length w)" by auto
  then show ?case using eq by (auto simp: advance_def)
next
  case (Group r)
  then obtain seen1 c1 where in1: "(pv', seen1, s', c1) \<in> set (rmatch r (pv, [], s, c))"
    and eq: "seen' = seen1 @ seen" "c' = Some (rev seen1)" by auto
  from Group.IH[OF in1] obtain w where "seen1 = rev w" "s = w @ s'" "w \<in> lang r" by auto
  then show ?case using eq by auto
next
  case WordBoundary
  then show ?case by (auto split: if_splits)
next
  case Start
  then show ?case by (auto split: if_splits)
next
  case End
  then show ?case by (auto split: if_splits)
qed

lemma match_here_sound:
  assumes "match_here r pv s = Some m"
  shows "prefix (m0 m) s \<and> m0 m \<in> lang r \<and>
         (\<forall>g. m1 m = Some g \<longrightarrow> g \<in> group_lang r \<and> sublist g s)"
proof -
  from assms obtain pv' seen' s' c' rest
    where r: "rmatch r (pv, [], s, None) = (pv', seen', s', c') # rest"
      and m: "m0 m = rev seen'" "m1 m = c'"
    by (auto simp: match_here_def split: list.splits)
  then have "(pv', seen', s', c') \<in> set (rmatch r (pv, [], s, None))" by simp
  from rmatch_sound[OF this] obtain w where w: "seen' = rev w" "s = w @ s'" "w \<in> lang r"
    "c' = None \<or> (\<exists>g. c' = Some g \<and> g \<in> group_lang r \<and> sublist g w)" by auto
  have "sublist g s" if "sublist g w" for g using that w(2) by (auto intro: sublist_app_left)
  then show ?thesis using w m by auto
qed

lemma exec_from_sound:
  "exec_from r pv s = Some m \<Longrightarrow>
   sublist (m0 m) s \<and> m0 m \<in> lang r \<and> (\<forall>g. m1 m = Some g \<longrightarrow> g \<in> group_lang r \<and> sublist g s)"
proof (induction s arbitrary: pv)
  case Nil
  then show ?case using match_here_sound[of r pv "[]" m] by (auto dest: prefix_imp_sublist)
next
  case (Cons x xs)
  show ?case
  proof (cases "match_here r pv (x # xs)")
    case None
    then have "exec_from r (Some x) xs = Some m" using Cons.prems by simp
    from Cons.IH[OF this] show ?thesis by (auto simp: sublist_Cons_right)
  next
    case (Some m')
    then have "m' = m" using Cons.prems by simp
    then show ?thesis using match_here_sound[OF Some] by (auto dest: prefix_imp_sublist)
  qed
qed

lemma exec_sound:
  "exec r s = Some m \<Longrightarrow>
   sublist (m0 m) s \<and> m0 m \<in> lang r \<and> (\<forall>g. m1 m = Some g \<longrightarrow> g \<in> group_lang r \<and> sublist g s)"
  unfolding exec_def by (rule exec_from_sound)

text \<open>\<open>exec\<close> finds the first of the matches that \<open>matchAll\<close> lists.\<close>

lemma exec_from_matchAll_from:
  "exec_from r pv s = (case matchAll_from r pv s 0 of [] \<Rightarrow> None | m # ms \<Rightarrow> Some m)"
  by (induction s arbitrary: pv) (auto split: option.splits)

lemma match_global_exec:
  "match_global r s = (case exec r s of None \<Rightarrow> None
     | Some m \<Rightarrow> Some (m0 m # map m0 (tl (matchAll r s))))"
  unfolding match_global_def exec_def matchAll_def exec_from_matchAll_from
  by (auto split: list.splits)

lemma trim_sublist: "sublist (trim s) s"
proof -
  have "sublist (rev (dropWhile space (rev (dropWhile space s)))) (dropWhile space s)"
    by (simp add: sublist_rev_left)
  moreover have "sublist (dropWhile space s) s" by simp
  ultimately show ?thesis unfolding trim_def by (rule sublist_order.order_trans)
qed

section \<open>Greedy runs, tests and the collapsing of white space\<close>

lemma splits_unbounded:
  "splits p m None acc s =
     (if m = 0 then [(acc, s)] else []) @
     (case s of [] \<Rightarrow> [] | x # xs \<Rightarrow> if p x then splits p (m - 1) None (acc @ [x]) xs else [])"
  by (subst splits.simps) (simp split: list.splits)

lemma splits_empty_iff:
  "splits p m None acc s = [] \<longleftrightarrow> length (takeWhile p s) < m"
proof (induction s arbitrary: m acc)
  case Nil
  then show ?case by (subst splits_unbounded) auto
next
  case (Cons x xs)
  show ?case by (subst splits_unbounded) (auto simp: Cons.IH)
qed

lemma splits_last:
  "length (takeWhile p s) \<ge> m \<Longrightarrow>
   last (splits p m None acc s) = (acc @ takeWhile p s, dropWhile p s)"
proof (induction s arbitrary: m acc)
  case Nil
  then show ?case by (subst splits_unbounded) auto
next
  case (Cons x xs)
  show ?case
  proof (cases "p x")
    case True
    then have le: "m - 1 \<le> length (takeWhile p xs)" using Cons.prems by auto
    have ne: "splits p (m - 1) None (acc @ [x]) xs \<noteq> []"
      using splits_empty_iff[of p "m - 1" "acc @ [x]" xs] le by linarith
    show ?thesis using True ne Cons.IH[OF le, of "acc @ [x]"]
      by (subst splits_unbounded) simp
  next
    case False
    then have "m = 0" using Cons.prems by simp
    then show ?thesis using False by (subst splits_unbounded) simp
  qed
qed

text \<open>A greedy \<open>p+\<close> matches where the input starts with a character of the class, and takes
  the whole run.\<close>

lemma match_here_plus:
  "match_here (Repeat p 1 None) pv s =
     (case s of [] \<Rightarrow> None
      | x # xs \<Rightarrow> if p x then Some \<lparr>m0 = takeWhile p s, m1 = None\<rparr> else None)"
proof (cases "length (takeWhile p s) < 1")
  case True
  then have "splits p 1 None [] s = []" by (simp only: splits_empty_iff)
  moreover have "s = [] \<or> \<not> p (hd s)" using True by (cases s) (auto split: if_splits)
  ultimately show ?thesis by (cases s) (auto simp: match_here_def)
next
  case False
  then have ge: "1 \<le> length (takeWhile p s)" by linarith
  have ne: "splits p 1 None [] s \<noteq> []"
    using splits_empty_iff[of p 1 "[]" s] False by blast
  have l: "last (splits p 1 None [] s) = (takeWhile p s, dropWhile p s)"
    using splits_last[OF ge, of "[]"] by simp
  obtain x xs where s: "s = x # xs" "p x" using ge by (cases s) (auto split: if_splits)
  have "splits p 1 None [] s = butlast (splits p 1 None [] s) @ [(takeWhile p s, dropWhile p s)]"
    using ne l by (metis append_butlast_last_id)
  then obtain bl where "splits p 1 None [] s = bl @ [(takeWhile p s, dropWhile p s)]" ..
  then have "rmatch (Repeat p 1 None) (pv, [], s, None) =
     advance (takeWhile p s) (dropWhile p s) (pv, [], s, None) #
     map (\<lambda>(taken, rest). advance taken rest (pv, [], s, None)) (rev bl)"
    by simp
  then show ?thesis using s by (simp add: match_here_def advance_def)
qed

lemmas match_here_plus_Suc = match_here_plus [unfolded One_nat_def]

lemma match_here_class:
  "match_here (Class p) pv s =
     (case s of [] \<Rightarrow> None | x # xs \<Rightarrow> if p x then Some \<lparr>m0 = [x], m1 = None\<rparr> else None)"
  by (cases s) (auto simp: match_here_def)

lemma test_plus: "test (Repeat p 1 None) s = list_ex p s"
proof -
  have "(exec_from (Repeat p 1 None) pv s \<noteq> None) = list_ex p s" for pv
    by (induction s arbitrary: pv) (auto simp: match_here_plus_Suc)
  then show ?thesis by (simp add: test_def exec_def)
qed

lemma test_class: "test (Class p) s = list_ex p s"
proof -
  have "(exec_from (Class p) pv s \<noteq> None) = list_ex p s" for pv
    by (induction s arbitrary: pv) (auto simp: match_here_class)
  then show ?thesis by (simp add: test_def exec_def)
qed

text \<open>\<open>replace(/\s+/g, ' ')\<close> collapses every run of white space to one space.\<close>

lemma replace_spaces_collapse:
  "replace_from (Repeat space 1 None) '' '' pv s 0 = collapse False s \<and>
   replace_from (Repeat space 1 None) '' '' pv s (length (takeWhile space s)) = collapse True s"
proof (induction s arbitrary: pv)
  case Nil
  then show ?case by (simp add: match_here_plus_Suc)
next
  case (Cons x xs)
  show ?case
  proof (cases "space x")
    case True
    then show ?thesis using Cons.IH[of "Some x"] by (simp add: match_here_plus_Suc)
  next
    case False
    then show ?thesis using Cons.IH[of "Some x"] by (simp add: match_here_plus_Suc)
  qed
qed

lemma cleanText_collapse: "cleanText txt = trim (collapse False txt)"
  unfolding cleanText_def replace_global_def by (simp only: replace_spaces_collapse)

section \<open>The date patterns in their order\<close>

lemma try_date_global:
  "try_date_patterns ((p, False) # rest) clean =
     (case exec p clean of None \<Rightarrow> try_date_patterns rest clean | Some m \<Rightarrow> Inr (Some (m0 m)))"
  by (simp add: match_global_exec split: option.splits)

lemma try_date_keyword:
  assumes "captures p"
  shows "try_date_patterns [(p, True)] clean =
     (case exec p clean of
        None \<Rightarrow> Inr None
      | Some m \<Rightarrow>
          if list_ex digit (trim (the (m1 m))) \<and> list_ex date_separator (trim (the (m1 m)))
          then Inr (Some (trim (the (m1 m)))) else Inr None)"
proof (cases "exec p clean")
  case None
  then show ?thesis by simp
next
  case (Some m)
  then obtain g where g: "m1 m = Some g" using exec_captures[OF assms] by auto
  have "one_of ''/-.'' = date_separator"
    by (auto simp: one_of_def date_separator_def fun_eq_iff)
  then show ?thesis using Some g by (simp add: Let_def test_plus[unfolded One_nat_def] test_class)
qed

lemma extractDate_cases:
  "extractDate txt =
     (case exec numeric_date (cleanText txt) of
        Some m \<Rightarrow> Inr (Some (m0 m))
      | None \<Rightarrow>
     (case exec month_date (cleanText txt) of
        Some m \<Rightarrow> Inr (Some (m0 m))
      | None \<Rightarrow>
     (case exec iso_date (cleanText txt) of
        Some m \<Rightarrow> Inr (Some (m0 m))
      | None \<Rightarrow>
     (case exec keyword_date (cleanText txt) of
        None \<Rightarrow> Inr None
      | Some m \<Rightarrow>
          if list_ex digit (trim (the (m1 m))) \<and> list_ex date_separator (trim (the (m1 m)))
          then Inr (Some (trim (the (m1 m)))) else Inr None))))"
  unfolding extractDate_def datePatterns_def try_date_global
    try_date_keyword[OF captures_keyword_date]
  by (simp split: option.splits)

lemma extractDate_sublist:
  assumes "extractDate txt = Inr (Some d)"
  shows "sublist d (cleanText txt)"
proof -
  let ?c = "cleanText txt"
  have direct: "sublist (m0 m) ?c" if "exec r ?c = Some m" for r m
    using exec_sound[OF that] by simp
  show ?thesis
  proof (cases "exec numeric_date ?c")
    case (Some m)
    then show ?thesis using assms direct[OF Some] by (simp add: extractDate_cases)
  next
    case n1: None
    show ?thesis
    proof (cases "exec month_date ?c")
      case (Some m)
      then show ?thesis using assms n1 direct[OF Some] by (simp add: extractDate_cases)
    next
      case n2: None
      show ?thesis
      proof (cases "exec iso_date ?c")
        case (Some m)
        then show ?thesis using assms n1 n2 direct[OF Some] by (simp add: extractDate_cases)
      next
        case n3: None
        show ?thesis
        proof (cases "exec keyword_date ?c")
          case None
          then show ?thesis using assms n1 n2 n3 by (simp add: extractDate_cases)
        next
          case (Some m)
          then obtain g where g: "m1 m = Some g"
            using exec_captures[OF captures_keyword_date] by auto
          have "sublist g ?c" using exec_sound[OF Some] g by simp
          then have "sublist (trim g) ?c"
            using trim_sublist[of g] by (meson sublist_order.order_trans)
          moreover have "d = trim g"
            using assms n1 n2 n3 Some g by (simp add: extractDate_cases split: if_splits)
          ultimately show ?thesis by simp
        qed
      qed
    qed
  qed
qed


section \<open>The labeled totals\<close>

lemma parseFloat_Nil: "parseFloat [] = None"
  by (simp add: parseFloat_def)

lemma try_total_patterns_step:
  "try_total_patterns (p # rest) clean =
     (case captured_total p clean of Some t \<Rightarrow> Some t | None \<Rightarrow> try_total_patterns rest clean)"
  by (auto simp: captured_total_def Let_def parseFloat_Nil positive_def split: option.splits)

lemma labeled_total_cases:
  "try_total_patterns (butlast totalPatterns) clean =
     (case captured_total total_phrase clean of
        Some t \<Rightarrow> Some t
      | None \<Rightarrow>
     (case captured_total total_keyword clean of
        Some t \<Rightarrow> Some t
      | None \<Rightarrow> captured_total amount_then_keyword clean))"
  unfolding butlast_totalPatterns try_total_patterns_step
  by (simp split: option.splits)

lemma digit_not_comma: "digit c \<Longrightarrow> c \<noteq> CHR '',''"
  by (auto simp: digit_def)

lemma replace_first_digits:
  "list_all digit ds \<Longrightarrow>
   replace_first CHR '','' CHR ''.'' (ds @ rest) = ds @ replace_first CHR '','' CHR ''.'' rest"
  by (induction ds) (auto simp: digit_not_comma)

lemma digits_no_comma: "list_all digit ds \<Longrightarrow> CHR '','' \<notin> set ds"
  by (induction ds) (auto dest: digit_not_comma)

lemma lang_amount_number:
  assumes "g \<in> lang amount_number"
  shows "\<exists>ds fr. g = ds @ fr \<and> list_all digit ds \<and>
           (fr = [] \<or> (\<exists>sep ds2. fr = sep # ds2 \<and> list_all digit ds2))"
proof -
  from assms obtain ds fr where g: "g = ds @ fr" "ds \<in> lang (Repeat digit 1 None)"
    "fr \<in> lang (opt decimal_fraction)"
    unfolding amount_number_def by auto
  have "list_all digit ds" using g(2) by simp
  moreover have "fr = [] \<or> (\<exists>sep ds2. fr = sep # ds2 \<and> list_all digit ds2)"
    using g(3) unfolding opt_def decimal_fraction_def by auto
  ultimately show ?thesis using g(1) by blast
qed

lemma lang_amount_with_fraction: "lang amount_with_fraction \<subseteq> lang amount_number"
  unfolding amount_with_fraction_def amount_number_def opt_def by auto

lemma amount_no_comma:
  assumes "g \<in> lang amount_number"
  shows "CHR '','' \<notin> set (replace_first CHR '','' CHR ''.'' g)"
proof -
  from lang_amount_number[OF assms] obtain ds fr where g: "g = ds @ fr" "list_all digit ds"
    and fr: "fr = [] \<or> (\<exists>sep ds2. fr = sep # ds2 \<and> list_all digit ds2)" by blast
  have "CHR '','' \<notin> set (replace_first CHR '','' CHR ''.'' fr)"
  proof (cases fr)
    case Nil
    then show ?thesis by simp
  next
    case (Cons sep ds2)
    then have d2: "list_all digit ds2" using fr by auto
    then have "replace_first CHR '','' CHR ''.'' ds2 = ds2"
      using replace_first_digits[of ds2 "[]"] by simp
    then show ?thesis using Cons digits_no_comma[OF d2] by auto
  qed
  then show ?thesis using g digits_no_comma[OF g(2)] by (simp add: replace_first_digits)
qed

lemma group_lang_liti: "group_lang (liti s) = {}"
  unfolding liti_def by (induction s) auto

lemma group_lang_lit: "group_lang (lit s) = {}"
  unfolding lit_def by (induction s) auto

lemma group_lang_total_phrase: "group_lang total_phrase = lang amount_with_fraction"
  by (simp add: total_phrase_def seqs_def opt_def spaces_def spaces1_def dollar_def group_lang_liti)

lemma group_lang_total_keyword: "group_lang total_keyword = lang amount_number"
  by (simp add: total_keyword_def seqs_def opt_def spaces_def dollar_def group_lang_liti
      group_lang_lit)

lemma group_lang_amount_then_keyword: "group_lang amount_then_keyword = lang amount_number"
  by (simp add: amount_then_keyword_def seqs_def opt_def spaces_def dollar_def group_lang_liti)

lemma captured_total_sound:
  assumes "captured_total p clean = Some t" and "group_lang p \<subseteq> lang amount_number"
  shows "positive (parseFloat t) \<and> CHR '','' \<notin> set t"
proof -
  from assms(1) obtain m g where m: "exec p clean = Some m" "m1 m = Some g"
    and t: "t = replace_first CHR '','' CHR ''.'' g" "positive (parseFloat t)"
    by (auto simp: captured_total_def split: option.splits if_splits)
  have "g \<in> lang amount_number" using exec_sound[OF m(1)] m(2) assms(2) by auto
  then show ?thesis using t amount_no_comma by simp
qed

lemma labeled_total_sound:
  assumes "try_total_patterns (butlast totalPatterns) clean = Some t"
  shows "positive (parseFloat t) \<and> CHR '','' \<notin> set t"
proof -
  have "captured_total total_phrase clean = Some t \<or> captured_total total_keyword clean = Some t \<or>
        captured_total amount_then_keyword clean = Some t"
    using assms unfolding labeled_total_cases by (auto split: option.splits)
  then show ?thesis
    using captured_total_sound[of total_phrase clean t] captured_total_sound[of total_keyword clean t]
      captured_total_sound[of amount_then_keyword clean t]
      lang_amount_with_fraction
    by (auto simp only: group_lang_total_phrase group_lang_total_keyword
        group_lang_amount_then_keyword subset_refl)
qed


section \<open>The fallback of the total: the largest plausible amount\<close>

lemma amount_items_map:
  "(\<And>m. m \<in> set ms \<Longrightarrow> m1 m \<noteq> None) \<Longrightarrow>
   amount_items ms =
     Inr (map (\<lambda>m. \<lparr>item_value = replace_first CHR '','' CHR ''.'' (case m1 m of None \<Rightarrow> [] | Some g \<Rightarrow> g),
                     item_amount = parseFloat (replace_first CHR '','' CHR ''.''
                                          (case m1 m of None \<Rightarrow> [] | Some g \<Rightarrow> g))\<rparr>) ms)"
proof (induction ms)
  case Nil
  then show ?case by simp
next
  case (Cons m ms)
  obtain g where g: "m1 m = Some g" using Cons.prems[of m] by auto
  have "amount_items ms = Inr (map (\<lambda>m. \<lparr>item_value = replace_first CHR '','' CHR ''.'' (case m1 m of None \<Rightarrow> [] | Some g \<Rightarrow> g),
                     item_amount = parseFloat (replace_first CHR '','' CHR ''.''
                                          (case m1 m of None \<Rightarrow> [] | Some g \<Rightarrow> g))\<rparr>) ms)"
    using Cons by simp
  then show ?case using g by (simp add: Let_def)
qed

lemma amount_items_currency:
  "amount_items (matchAll (last totalPatterns) clean) = Inr (currency_items clean)"
  unfolding last_totalPatterns currency_items_def
  by (rule amount_items_map) (rule matchAll_captures[OF captures_currency_amount])

lemma sort_key_Nil_iff: "sort_key f xs = [] \<longleftrightarrow> xs = []"
  using length_sort[of f xs] by (metis length_0_conv)

text \<open>The head of a stable sort: the first of the elements with the least key.\<close>

lemma hd_sort_key:
  "xs \<noteq> [] \<Longrightarrow>
   \<exists>pre post. xs = pre @ hd (sort_key f xs) # post \<and>
     (\<forall>b\<in>set pre. f (hd (sort_key f xs)) < f b) \<and>
     (\<forall>b\<in>set post. f (hd (sort_key f xs)) \<le> f b)"
proof (induction xs)
  case Nil
  then show ?case by simp
next
  case (Cons x xs)
  show ?case
  proof (cases "xs = []")
    case True
    then show ?thesis by (intro exI[of _ "[]"]) simp
  next
    case False
    from Cons.IH[OF False] obtain pre post where
      xs: "xs = pre @ hd (sort_key f xs) # post"
      and pre: "\<forall>b\<in>set pre. f (hd (sort_key f xs)) < f b"
      and post: "\<forall>b\<in>set post. f (hd (sort_key f xs)) \<le> f b" by blast
    let ?h = "hd (sort_key f xs)"
    have ne: "sort_key f xs \<noteq> []" using False by (simp add: sort_key_Nil_iff)
    then obtain t where st: "sort_key f xs = ?h # t" by (cases "sort_key f xs") auto
    have all: "\<forall>b\<in>set xs. f ?h \<le> f b"
    proof
      fix b assume "b \<in> set xs"
      then have "b \<in> set pre \<or> b = ?h \<or> b \<in> set post" using xs by (metis Un_iff set_ConsD set_append)
      then show "f ?h \<le> f b" using pre post by auto
    qed
    have sk: "sort_key f (x # xs) = insort_key f x (?h # t)" using st by simp
    show ?thesis
    proof (cases "f x \<le> f ?h")
      case True
      then have "hd (sort_key f (x # xs)) = x" using sk by simp
      moreover have "\<forall>b\<in>set xs. f x \<le> f b" using all True by auto
      ultimately show ?thesis by (intro exI[of _ "[]"] exI[of _ xs]) simp
    next
      case False
      then have h: "hd (sort_key f (x # xs)) = ?h" using sk by simp
      have "x # xs = (x # pre) @ ?h # post" using xs by simp
      moreover have "\<forall>b\<in>set (x # pre). f ?h < f b" using pre False by auto
      ultimately show ?thesis unfolding h using post by blast
    qed
  qed
qed

lemma largest_amount_plausible:
  "largest_amount clean =
     (case sort_descending (filter plausible (currency_items clean)) of
        [] \<Rightarrow> Inr None
      | a # others \<Rightarrow> Inr (Some (item_value a)))"
proof -
  let ?items = "currency_items clean"
  have f: "filter (\<lambda>a. amount_of a < 100000) (sort_descending (filter (\<lambda>item. positive (item_amount item)) ?items))
        = sort_descending (filter plausible ?items)"
  proof -
    have p: "plausible = (\<lambda>x. positive (item_amount x) \<and> amount_of x < 100000)"
      by (rule ext) (simp add: plausible_def)
    show ?thesis
      unfolding sort_descending_def p by (simp add: filter_sort conj_commute)
  qed
  have e: "filter (\<lambda>item. positive (item_amount item)) ?items = [] \<Longrightarrow> filter plausible ?items = []"
    by (auto simp: filter_empty_conv plausible_def)
  show ?thesis
  proof (cases "filter (\<lambda>item. positive (item_amount item)) ?items = []")
    case True
    then show ?thesis
      unfolding largest_amount_def amount_items_currency
      using e[OF True] by (simp add: Let_def sort_descending_def)
  next
    case False
    then show ?thesis
      unfolding largest_amount_def amount_items_currency
      by (simp add: Let_def f)
  qed
qed

text \<open>What is collected: digits, a period, and one or two digits.\<close>

lemma matchAll_from_sound:
  "m \<in> set (matchAll_from r pv s skip) \<Longrightarrow> m1 m = Some g \<Longrightarrow> g \<in> group_lang r"
proof (induction s arbitrary: pv skip)
  case Nil
  then show ?case
    using match_here_sound[of r pv "[]" m]
    by (cases "skip = 0") (auto split: option.splits)
next
  case (Cons x xs)
  show ?case
  proof (cases "skip > 0")
    case True
    then show ?thesis using Cons by simp
  next
    case False
    show ?thesis
    proof (cases "match_here r pv (x # xs)")
      case None
      then show ?thesis using Cons False by simp
    next
      case (Some m')
      then have "m = m' \<or> m \<in> set (matchAll_from r (Some x) xs (length (m0 m') - 1))"
        using Cons.prems(1) False by simp
      then show ?thesis
        using match_here_sound[OF Some] Cons.IH Cons.prems(2) by auto
    qed
  qed
qed

lemma group_lang_currency_amount: "group_lang currency_amount = lang amount_with_fraction"
  by (simp add: currency_amount_def seqs_def spaces_def dollar_def)

lemma amount_with_fraction_value:
  assumes "g \<in> lang amount_with_fraction"
  shows "\<exists>ds fr. replace_first CHR '','' CHR ''.'' g = ds @ CHR ''.'' # fr \<and>
           ds \<noteq> [] \<and> list_all digit ds \<and> list_all digit fr \<and> (length fr = 1 \<or> length fr = 2)"
proof -
  from assms obtain ds sep fr where g: "g = ds @ sep # fr"
    and ds: "list_all digit ds" "1 \<le> length ds"
    and sep: "sep = CHR '','' \<or> sep = CHR ''.''"
    and fr: "list_all digit fr" "1 \<le> length fr" "length fr \<le> 2"
    unfolding amount_with_fraction_def decimal_fraction_def
    by (auto simp: bounded_def one_of_def)
  have f: "replace_first CHR '','' CHR ''.'' fr = fr"
    using replace_first_digits[OF fr(1), of "[]"] by simp
  have "replace_first CHR '','' CHR ''.'' (ds @ sep # fr) = ds @ CHR ''.'' # fr"
    using sep f by (auto simp: replace_first_digits[OF ds(1)])
  moreover have "ds \<noteq> []" using ds(2) by auto
  moreover have "length fr = 1 \<or> length fr = 2" using fr(2,3) by linarith
  ultimately show ?thesis using g ds(1) fr(1) by blast
qed

lemma currency_items_value:
  assumes "a \<in> set (currency_items clean)"
  shows "\<exists>ds fr. item_value a = ds @ CHR ''.'' # fr \<and>
           ds \<noteq> [] \<and> list_all digit ds \<and> list_all digit fr \<and> (length fr = 1 \<or> length fr = 2)"
proof -
  from assms obtain m where m: "m \<in> set (matchAll currency_amount clean)"
    and a: "item_value a = replace_first CHR '','' CHR ''.'' (case m1 m of None \<Rightarrow> [] | Some g \<Rightarrow> g)"
    unfolding currency_items_def by auto
  from matchAll_captures[OF captures_currency_amount m] obtain g where g: "m1 m = Some g" by auto
  have "g \<in> lang amount_with_fraction"
    using matchAll_from_sound[OF m[unfolded matchAll_def] g] group_lang_currency_amount by simp
  from amount_with_fraction_value[OF this] show ?thesis using a g by simp
qed


section \<open>The labeled phase of the merchant\<close>

lemma first_labeled_line_captured:
  "first_labeled_line p lines =
     (case List.map_filter (captured_name p) lines of [] \<Rightarrow> None | n # others \<Rightarrow> Some n)"
  by (induction lines) (auto simp: captured_name_def map_filter_simps split: option.splits)

lemma labeled_merchant_cases:
  "labeled_merchant merchantPatterns lines =
     (case List.map_filter (captured_name merchant_label) lines of
        n # others \<Rightarrow> Some n
      | [] \<Rightarrow>
     (case List.map_filter (captured_name merchant_phrase) lines of
        n # others \<Rightarrow> Some n
      | [] \<Rightarrow> None))"
  by (simp add: merchantPatterns_def first_labeled_line_captured split: list.splits)

lemma map_filter_app: "List.map_filter f (xs @ ys) = List.map_filter f xs @ List.map_filter f ys"
  by (simp add: List.map_filter_def)

lemma group_lang_merchant_label: "group_lang merchant_label = lang (Repeat name_char 1 None)"
  by (simp add: merchant_label_def seqs_def label_separator_def group_lang_liti)

lemma group_lang_merchant_phrase: "group_lang merchant_phrase = lang (Repeat name_char 1 None)"
  by (simp add: merchant_phrase_def seqs_def label_separator_def group_lang_liti)

lemma captured_name_sound:
  assumes "captured_name p line = Some n" and "p \<in> set merchantPatterns"
  shows "\<exists>g. n = trim g \<and> length g > 2 \<and> list_all name_char g \<and> sublist g line"
proof -
  from assms(1) obtain m g where m: "exec p line = Some m" "m1 m = Some g"
    and g: "length g > 2" "n = trim g"
    by (auto simp: captured_name_def split: option.splits if_splits)
  have "group_lang p = lang (Repeat name_char 1 None)"
    using assms(2) by (auto simp: merchantPatterns_def group_lang_merchant_label group_lang_merchant_phrase)
  then have "list_all name_char g \<and> sublist g line"
    using exec_sound[OF m(1)] m(2) by auto
  then show ?thesis using g by blast
qed

lemma sold_by_line:
  "captured_name merchant_phrase ''Sold by: Riverside Cafe'' = Some ''Riverside Cafe''"
  by code_simp


section \<open>The header scan of the merchant\<close>

text \<open>\<open>/^[A-Z][a-z]/\<close> holds of a line that starts with a capital and a small letter,
  \<open>/\d{3,}/\<close> of a line with three digits in a row.\<close>

lemma exec_from_title_case_later: "exec_from title_case (Some x) s = None"
  by (induction s arbitrary: x) (simp_all add: title_case_def seqs_def match_here_def)

lemma test_title_case:
  "test title_case line \<longleftrightarrow> (\<exists>a b rest. line = a # b # rest \<and> upper_letter a \<and> lower_letter b)"
proof (cases line)
  case Nil
  then show ?thesis by (simp add: test_def exec_def title_case_def seqs_def match_here_def)
next
  case (Cons a t)
  have m: "match_here title_case None (a # t) \<noteq> None \<longleftrightarrow>
      (\<exists>b rest. t = b # rest \<and> upper_letter a \<and> lower_letter b)"
    by (cases t) (simp_all add: title_case_def seqs_def match_here_def)
  show ?thesis
    unfolding Cons test_def exec_def using m
    by (auto simp: exec_from_title_case_later split: option.splits)
qed

lemma match_here_run:
  "match_here (Repeat p m None) pv s \<noteq> None \<longleftrightarrow> m \<le> length (takeWhile p s)"
proof -
  have "match_here (Repeat p m None) pv s \<noteq> None \<longleftrightarrow> splits p m None [] s \<noteq> []"
    by (cases "splits p m None [] s" rule: rev_cases)
       (auto simp: match_here_def advance_def split: list.splits prod.splits)
  then show ?thesis using splits_empty_iff[of p m "[]" s] by auto
qed

lemma run_prefix:
  "3 \<le> length (takeWhile p s) \<longleftrightarrow> (\<exists>v w. s = v @ w \<and> length v = 3 \<and> list_all p v)"
proof
  assume l: "3 \<le> length (takeWhile p s)"
  let ?v = "take 3 (takeWhile p s)"
  have "(?v @ drop 3 (takeWhile p s)) @ dropWhile p s = s"
    by (simp only: append_take_drop_id takeWhile_dropWhile_id)
  then have "s = ?v @ (drop 3 (takeWhile p s) @ dropWhile p s)" by (simp only: append_assoc)
  moreover have "length ?v = 3" using l by simp
  moreover have "list_all p ?v"
    unfolding list_all_iff by (metis in_set_takeD set_takeWhileD)
  ultimately show "\<exists>v w. s = v @ w \<and> length v = 3 \<and> list_all p v" by blast
next
  assume "\<exists>v w. s = v @ w \<and> length v = 3 \<and> list_all p v"
  then obtain v w where e: "s = v @ w" and v: "length v = 3" "list_all p v" by blast
  have "takeWhile p (v @ w) = v @ takeWhile p w"
    using v(2) by (simp add: list_all_iff takeWhile_append2)
  then show "3 \<le> length (takeWhile p s)" unfolding e using v(1) by simp
qed

lemma exec_from_run:
  "exec_from (Repeat p 3 None) pv s \<noteq> None \<longleftrightarrow>
     (\<exists>u v w. s = u @ v @ w \<and> length v = 3 \<and> list_all p v)"
proof (induction s arbitrary: pv)
  case Nil
  have "match_here (Repeat p 3 None) pv [] = None"
    using match_here_run[of p 3 pv "[]"] by simp
  then show ?case by simp
next
  case (Cons x xs)
  let ?R = "\<lambda>s. \<exists>u v w. s = u @ v @ w \<and> length v = 3 \<and> list_all p v"
  note here = run_prefix[of p "x # xs"]
  have step: "?R (x # xs) \<longleftrightarrow> (\<exists>v w. x # xs = v @ w \<and> length v = 3 \<and> list_all p v) \<or> ?R xs"
  proof
    assume "?R (x # xs)"
    then obtain u v w where e: "x # xs = u @ v @ w" and v: "length v = 3" "list_all p v" by blast
    show "(\<exists>v w. x # xs = v @ w \<and> length v = 3 \<and> list_all p v) \<or> ?R xs"
    proof (cases u)
      case Nil
      then show ?thesis using e v by auto
    next
      case (Cons y ys)
      then have "xs = ys @ v @ w" using e by simp
      then show ?thesis using v by blast
    qed
  next
    assume "(\<exists>v w. x # xs = v @ w \<and> length v = 3 \<and> list_all p v) \<or> ?R xs"
    then show "?R (x # xs)"
    proof
      assume "\<exists>v w. x # xs = v @ w \<and> length v = 3 \<and> list_all p v"
      then obtain v w where "x # xs = [] @ v @ w" "length v = 3" "list_all p v" by auto
      then show ?thesis by blast
    next
      assume "?R xs"
      then obtain u v w where "xs = u @ v @ w" "length v = 3" "list_all p v" by blast
      then have "x # xs = (x # u) @ v @ w" by simp
      then show ?thesis using \<open>length v = 3\<close> \<open>list_all p v\<close> by blast
    qed
  qed
  have "exec_from (Repeat p 3 None) pv (x # xs) \<noteq> None \<longleftrightarrow>
      match_here (Repeat p 3 None) pv (x # xs) \<noteq> None \<or> exec_from (Repeat p 3 None) (Some x) xs \<noteq> None"
    by (auto split: option.splits)
  then show ?case unfolding step using Cons.IH[of "Some x"] here match_here_run[of p 3 pv "x # xs"]
    by simp
qed

lemma test_digit_run:
  "test digit_run line \<longleftrightarrow> (\<exists>u v w. line = u @ v @ w \<and> length v = 3 \<and> list_all digit v)"
  unfolding test_def exec_def digit_run_def by (rule exec_from_run)

lemma header_merchant_cases:
  "header_merchant lines =
     (case sort_key (\<lambda>line. - score line) (filter potential_merchant (take 6 lines)) of
        [] \<Rightarrow> None | best # others \<Rightarrow> Some best)"
proof -
  have "take (min 6 (length lines)) lines = take 6 lines" by (simp add: min_def)
  then show ?thesis by (simp add: header_merchant_def prioritize_def Let_def)
qed


section \<open>The claims\<close>

text \<open>
  Claim C1. For every text, the empty one included, building the record throws no
  exception: the three extractors return, \<open>fullText\<close> is the text itself, and each of
  \<open>date\<close>, \<open>total\<close> and \<open>merchant\<close> is what its own extractor finds in the text,
  whatever the two others find. The four texts after it show a record with no field, with
  only a date, with only a total and with only a merchant.
\<close>

theorem extraction_never_fails:
  "(\<exists>d t. extractDate txt = Inr d \<and> extractTotal txt = Inr t \<and>
      billData_of txt =
        Inr \<lparr>fullText = txt, date = d, total = t, merchant = extractMerchant txt\<rparr>) \<and>
   billData_of [] = Inr \<lparr>fullText = [], date = None, total = None, merchant = None\<rparr> \<and>
   billData_of ''1/2/2024'' =
     Inr \<lparr>fullText = ''1/2/2024'', date = Some ''1/2/2024'', total = None, merchant = None\<rparr> \<and>
   billData_of ''$5.00'' =
     Inr \<lparr>fullText = ''$5.00'', date = None, total = Some ''5.00'', merchant = None\<rparr> \<and>
   billData_of ''ACME'' =
     Inr \<lparr>fullText = ''ACME'', date = None, total = None, merchant = Some ''ACME''\<rparr>"
proof -
  obtain d where d: "extractDate txt = Inr d" using extractDate_no_error by blast
  obtain t where t: "extractTotal txt = Inr t" using extractTotal_no_error by blast
  have "billData_of txt =
        Inr \<lparr>fullText = txt, date = d, total = t, merchant = extractMerchant txt\<rparr>"
    by (simp add: billData_of_def d t)
  with d t show ?thesis
    using billData_of_empty billData_of_date_only billData_of_total_only
      billData_of_merchant_only by blast
qed

text \<open>
  Claim C2. For every valid raster with width and height at least 1, \<open>preprocessImage\<close>
  returns a raster of the same width and height (and as many bytes), in which each of the
  three colour bytes of every pixel is 0 or 255. The statement holds for every size, so
  also when the median filter is skipped (width or height at most 10).
\<close>

theorem preprocessImage_binarized:
  assumes "valid_raster c" and "1 \<le> width c" and "1 \<le> height c"
  shows "width (preprocessImage c) = width c \<and> height (preprocessImage c) = height c \<and>
         length (data (preprocessImage c)) = 4 * (width c * height c) \<and>
         (\<forall>p<width c * height c. \<forall>ch<3. binary (data (preprocessImage c) ! (4 * p + ch)))"
proof -
  let ?d = "data (preprocessImage c)"
  have len: "length ?d = 4 * (width c * height c)"
    using assms(1)
    by (simp add: data_preprocessImage length_threshold_pass length_grayscale_pass valid_raster_def)
  have bin: "binarized ?d"
    by (simp add: data_preprocessImage binarized_threshold_pass)
  have "binary (?d ! (4 * p + ch))" if "p < width c * height c" "ch < 3" for p ch
  proof -
    have "4 * p + ch < length ?d" using that len by simp
    moreover have "(4 * p + ch) mod 4 \<noteq> 3" using that(2) by simp
    ultimately show ?thesis using bin unfolding binarized_iff by blast
  qed
  moreover have "width (preprocessImage c) = width c" "height (preprocessImage c) = height c"
    by (simp_all add: preprocessImage_def Let_def)
  ultimately show ?thesis using len by blast
qed

text \<open>The theorem at a 2 x 1 raster (no median pass) and at an 11 x 11 raster (median pass).\<close>

theorem preprocessImage_binarized_witness:
  "(valid_raster small_canvas \<and> 1 \<le> width small_canvas \<and> 1 \<le> height small_canvas \<and>
    \<not> (width small_canvas > 10 \<and> height small_canvas > 10) \<and>
    width (preprocessImage small_canvas) = 2 \<and> height (preprocessImage small_canvas) = 1 \<and>
    list_all (\<lambda>p. list_all (\<lambda>ch. binary (data (preprocessImage small_canvas) ! (4 * p + ch)))
      [0..<3]) [0..<2]) \<and>
   (valid_raster big_canvas \<and> 1 \<le> width big_canvas \<and> 1 \<le> height big_canvas \<and>
    width big_canvas > 10 \<and> height big_canvas > 10 \<and>
    width (preprocessImage big_canvas) = 11 \<and> height (preprocessImage big_canvas) = 11 \<and>
    list_all (\<lambda>p. list_all (\<lambda>ch. binary (data (preprocessImage big_canvas) ! (4 * p + ch)))
      [0..<3]) [0..<121])"
proof -
  have s: "1 \<le> width small_canvas" "1 \<le> height small_canvas"
    "width small_canvas = 2" "height small_canvas = 1"
    by (simp_all add: small_canvas_def)
  have b: "1 \<le> width big_canvas" "1 \<le> height big_canvas"
    "width big_canvas = 11" "height big_canvas = 11"
    by (simp_all add: big_canvas_def)
  show ?thesis
    using preprocessImage_binarized [OF valid_small_canvas s(1,2)]
      preprocessImage_binarized [OF valid_big_canvas b(1,2)]
      valid_small_canvas valid_big_canvas
    by (simp add: s b list_all_iff)
qed

text \<open>
  Claim C3, as stated, does not hold: on the 4 x 1 raster with the grey levels 0, 1, 1, 2
  the exact between-class variance \<open>wB * wF * (mB - mF)\<^sup>2\<close> is 16/3 at both \<open>t = 0\<close> and
  \<open>t = 1\<close>, its largest value, yet the scan selects 1 and not the earlier 0: in doubles
  the value at 1 comes out one unit in the last place above the value at 0.
\<close>

theorem otsu_exact_tie_counterexample:
  "valid_raster tie_canvas \<and>
   intensities (gray_of tie_canvas) = [0, 1, 1, 2] \<and>
   class_variance [0, 1, 1, 2] 0 = 16 / 3 \<and>
   class_variance [0, 1, 1, 2] 1 = 16 / 3 \<and>
   computed_variance [0, 1, 1, 2] 0 < computed_variance [0, 1, 1, 2] 1 \<and>
   selected_threshold tie_canvas = 1 \<and>
   \<not> class_variance (intensities (gray_of tie_canvas)) 0
       < class_variance (intensities (gray_of tie_canvas)) (selected_threshold tie_canvas)"
proof -
  have a: "class_variance [0, 1, 1, 2] 0 = 16 / 3" "class_variance [0, 1, 1, 2] 1 = 16 / 3"
    by code_simp+
  have b: "computed_variance [0, 1, 1, 2] 0 < computed_variance [0, 1, 1, 2] 1"
    by code_simp
  show ?thesis
    using a b by (simp add: valid_tie_canvas tie_canvas_intensities tie_canvas_threshold)
qed

text \<open>
  Claim C3, amended. In the Otsu step, the selected threshold is the earliest \<open>t\<close> in
  0..255 at which the value of \<open>wB * wF * (mB - mF) * (mB - mF)\<close>, as the scan computes it
  in double arithmetic from the pixel counts and the class means of the grey image, is
  largest: no threshold has a larger computed value and every earlier one has a strictly
  smaller one. Afterwards each of the three colour bytes of a pixel is 255 if the pixel's
  intensity is strictly greater than the threshold, and 0 otherwise.
\<close>

theorem otsu_selects_earliest_computed_maximum:
  assumes "valid_raster c"
  shows "selected_threshold c < 256 \<and>
    (\<forall>u<256. computed_variance (intensities (gray_of c)) u
              \<le> computed_variance (intensities (gray_of c)) (selected_threshold c)) \<and>
    (\<forall>u. u < selected_threshold c \<longrightarrow> computed_variance (intensities (gray_of c)) u
              < computed_variance (intensities (gray_of c)) (selected_threshold c)) \<and>
    (\<forall>p<width c * height c. \<forall>ch<3. data (preprocessImage c) ! (4 * p + ch) =
       (if selected_threshold c < intensities (gray_of c) ! p then 255 else 0))"
proof -
  note E = selected_threshold_earliest_max[OF assms, unfolded earliest_max_def]
  have "\<forall>p<width c * height c. \<forall>ch<3. data (preprocessImage c) ! (4 * p + ch) =
       (if selected_threshold c < intensities (gray_of c) ! p then 255 else 0)"
    using preprocessImage_pixel[OF assms] by simp
  with E show ?thesis by simp
qed

text \<open>The theorem at the 4 x 1 raster: threshold 1, the three pixels of intensity 0 and 1
  black, the pixel of intensity 2 white.\<close>

theorem otsu_selects_earliest_computed_maximum_witness:
  "valid_raster tie_canvas \<and> selected_threshold tie_canvas = 1 \<and>
   intensities (gray_of tie_canvas) = [0, 1, 1, 2] \<and>
   list_all (\<lambda>u. computed_variance (intensities (gray_of tie_canvas)) u
                 \<le> computed_variance (intensities (gray_of tie_canvas)) 1) [0..<256] \<and>
   list_all (\<lambda>u. computed_variance (intensities (gray_of tie_canvas)) u
                 < computed_variance (intensities (gray_of tie_canvas)) 1) [0..<1] \<and>
   list_all (\<lambda>ch. data (preprocessImage tie_canvas) ! (4 * 1 + ch) = 0) [0..<3] \<and>
   list_all (\<lambda>ch. data (preprocessImage tie_canvas) ! (4 * 3 + ch) = 255) [0..<3]"
proof -
  note T = otsu_selects_earliest_computed_maximum[OF valid_tie_canvas, unfolded tie_canvas_threshold]
  have n: "width tie_canvas * height tie_canvas = 4" by (simp add: tie_canvas_def)
  have a: "list_all (\<lambda>u. computed_variance (intensities (gray_of tie_canvas)) u
                 \<le> computed_variance (intensities (gray_of tie_canvas)) 1) [0..<256]"
    unfolding list_all_iff set_upt using T by simp
  have b: "list_all (\<lambda>u. computed_variance (intensities (gray_of tie_canvas)) u
                 < computed_variance (intensities (gray_of tie_canvas)) 1) [0..<1]"
    unfolding list_all_iff set_upt using T by simp
  have px: "\<forall>p<4. \<forall>ch<3. data (preprocessImage tie_canvas) ! (4 * p + ch) =
       (if 1 < intensities (gray_of tie_canvas) ! p then 255 else 0)"
    using T unfolding n by blast
  have c: "list_all (\<lambda>ch. data (preprocessImage tie_canvas) ! (4 * 1 + ch) = 0) [0..<3]"
    unfolding list_all_iff set_upt using px[rule_format, of 1] tie_canvas_intensities by simp
  have d: "list_all (\<lambda>ch. data (preprocessImage tie_canvas) ! (4 * 3 + ch) = 255) [0..<3]"
    unfolding list_all_iff set_upt using px[rule_format, of 3] tie_canvas_intensities by simp
  show ?thesis
    using valid_tie_canvas tie_canvas_threshold tie_canvas_intensities a b c d by blast
qed

text \<open>
  Claim C4. For every valid raster whose colour bytes are all 0 or 255, running
  \<open>preprocessImage\<close> on its own output gives that output again. (The output of the
  first run is already black and white with equal colour bytes; on such a raster the grey
  pass changes nothing, the histogram has the two bins 0 and 255, the scan selects
  threshold 0, and the threshold pass keeps every byte.)
\<close>

theorem preprocessImage_idempotent:
  assumes "valid_raster c" and "binarized (data c)"
  shows "preprocessImage (preprocessImage c) = preprocessImage c"
  using assms(1) by (rule preprocessImage_twice)

text \<open>The theorem at a 2 x 1 raster with a red and a cyan pixel.\<close>

theorem preprocessImage_idempotent_witness:
  "valid_raster binarized_canvas \<and> binarized (data binarized_canvas) \<and>
   preprocessImage (preprocessImage binarized_canvas) = preprocessImage binarized_canvas"
  using preprocessImage_idempotent [OF valid_binarized_canvas binarized_binarized_canvas]
    valid_binarized_canvas binarized_binarized_canvas
  by simp

text \<open>
  Claim C5. \<open>extractDate\<close> first collapses every run of white space to one space (and
  trims the ends), then tries the numeric, the month-name, the ISO and the keyword pattern
  in this order and returns what the first pattern that matches has matched: for the first
  three the matched text, for the keyword pattern the text behind the label, accepted if
  it has a digit and one of the separators. What is returned is a piece of the collapsed
  text as it stands there, with no check of the calendar: \<open>13/45/2099\<close> is returned as
  it is, and \<open>Invoice Date: 03/14/2024 Total: $5.00\<close> gives \<open>03/14/2024\<close>.
\<close>

theorem extractDate_first_pattern_wins:
  "cleanText txt = trim (collapse False txt) \<and>
   (\<forall>m. exec numeric_date (cleanText txt) = Some m \<longrightarrow> extractDate txt = Inr (Some (m0 m))) \<and>
   (\<forall>m. exec numeric_date (cleanText txt) = None \<and> exec month_date (cleanText txt) = Some m
        \<longrightarrow> extractDate txt = Inr (Some (m0 m))) \<and>
   (\<forall>m. exec numeric_date (cleanText txt) = None \<and> exec month_date (cleanText txt) = None \<and>
        exec iso_date (cleanText txt) = Some m
        \<longrightarrow> extractDate txt = Inr (Some (m0 m))) \<and>
   (\<forall>m g. exec numeric_date (cleanText txt) = None \<and> exec month_date (cleanText txt) = None \<and>
        exec iso_date (cleanText txt) = None \<and> exec keyword_date (cleanText txt) = Some m \<and>
        m1 m = Some g
        \<longrightarrow> extractDate txt =
            (if list_ex digit (trim g) \<and> list_ex date_separator (trim g)
             then Inr (Some (trim g)) else Inr None)) \<and>
   (exec numeric_date (cleanText txt) = None \<and> exec month_date (cleanText txt) = None \<and>
        exec iso_date (cleanText txt) = None \<and> exec keyword_date (cleanText txt) = None
        \<longrightarrow> extractDate txt = Inr None) \<and>
   (\<forall>d. extractDate txt = Inr (Some d) \<longrightarrow> sublist d (cleanText txt)) \<and>
   extractDate ''Invoice Date: 03/14/2024 Total: $5.00'' = Inr (Some ''03/14/2024'') \<and>
   extractDate ''13/45/2099'' = Inr (Some ''13/45/2099'')"
proof -
  have ex1: "extractDate ''Invoice Date: 03/14/2024 Total: $5.00'' = Inr (Some ''03/14/2024'')"
    by code_simp
  have ex2: "extractDate ''13/45/2099'' = Inr (Some ''13/45/2099'')"
    by code_simp
  show ?thesis
    using ex1 ex2 extractDate_sublist[of "txt"] cleanText_collapse[of "txt"]
    by (simp add: extractDate_cases)
qed


text \<open>The theorem at four texts, one for each way through the pattern list.\<close>

theorem extractDate_first_pattern_wins_witness:
  "exec numeric_date (cleanText ''Invoice Date: 03/14/2024 Total: $5.00'') =
     Some \<lparr>m0 = ''03/14/2024'', m1 = Some ''03/14/2024''\<rparr> \<and>
   extractDate ''Invoice Date: 03/14/2024 Total: $5.00'' = Inr (Some ''03/14/2024'') \<and>
   sublist ''03/14/2024'' (cleanText ''Invoice Date: 03/14/2024 Total: $5.00'') \<and>
   exec numeric_date (cleanText ''Purchase made on January 5th, 2023 at noon'') = None \<and>
   exec month_date (cleanText ''Purchase made on January 5th, 2023 at noon'') =
     Some \<lparr>m0 = ''January 5th, 2023'', m1 = Some ''January''\<rparr> \<and>
   extractDate ''Purchase made on January 5th, 2023 at noon'' = Inr (Some ''January 5th, 2023'') \<and>
   exec numeric_date (cleanText ''Date: 3/2024'') = None \<and>
   exec month_date (cleanText ''Date: 3/2024'') = None \<and>
   exec iso_date (cleanText ''Date: 3/2024'') = None \<and>
   exec keyword_date (cleanText ''Date: 3/2024'') =
     Some \<lparr>m0 = ''Date: 3/2024'', m1 = Some ''3/2024''\<rparr> \<and>
   extractDate ''Date: 3/2024'' = Inr (Some ''3/2024'') \<and>
   exec keyword_date (cleanText ''no date'') = None \<and>
   extractDate ''no date'' = Inr None"
proof -
  have a: "exec numeric_date (cleanText ''Invoice Date: 03/14/2024 Total: $5.00'') =
     Some \<lparr>m0 = ''03/14/2024'', m1 = Some ''03/14/2024''\<rparr>"
    by code_simp
  have b: "exec numeric_date (cleanText ''Purchase made on January 5th, 2023 at noon'') = None"
    "exec month_date (cleanText ''Purchase made on January 5th, 2023 at noon'') =
       Some \<lparr>m0 = ''January 5th, 2023'', m1 = Some ''January''\<rparr>"
    by code_simp+
  have c: "exec numeric_date (cleanText ''Date: 3/2024'') = None"
    "exec month_date (cleanText ''Date: 3/2024'') = None"
    "exec iso_date (cleanText ''Date: 3/2024'') = None"
    "exec keyword_date (cleanText ''Date: 3/2024'') =
       Some \<lparr>m0 = ''Date: 3/2024'', m1 = Some ''3/2024''\<rparr>"
    by code_simp+
  have t: "trim ''3/2024'' = ''3/2024''" "list_ex digit ''3/2024''"
    "list_ex date_separator ''3/2024''"
    by code_simp+
  have d: "exec numeric_date (cleanText ''no date'') = None"
    "exec month_date (cleanText ''no date'') = None"
    "exec iso_date (cleanText ''no date'') = None"
    "exec keyword_date (cleanText ''no date'') = None"
    by code_simp+
  note A = extractDate_first_pattern_wins [of "''Invoice Date: 03/14/2024 Total: $5.00''"]
  note B = extractDate_first_pattern_wins [of "''Purchase made on January 5th, 2023 at noon''"]
  note C = extractDate_first_pattern_wins [of "''Date: 3/2024''"]
  note D = extractDate_first_pattern_wins [of "''no date''"]
  have a1: "extractDate ''Invoice Date: 03/14/2024 Total: $5.00'' = Inr (Some ''03/14/2024'')"
    using A by blast
  have a2: "sublist ''03/14/2024'' (cleanText ''Invoice Date: 03/14/2024 Total: $5.00'')"
    using A a1 by blast
  have b1: "extractDate ''Purchase made on January 5th, 2023 at noon'' =
      Inr (Some (m0 \<lparr>m0 = ''January 5th, 2023'', m1 = Some ''January''\<rparr>))"
    using B b by blast
  have c1: "extractDate ''Date: 3/2024'' =
      (if list_ex digit (trim ''3/2024'') \<and> list_ex date_separator (trim ''3/2024'')
       then Inr (Some (trim ''3/2024'')) else Inr None)"
    using C c by (metis rx_match.select_convs(2))
  have d1: "extractDate ''no date'' = Inr None"
    using D d by blast
  show ?thesis using a a1 a2 b b1 c c1 t d d1 by simp
qed

text \<open>
  Claim C6. The labeled phase tries the phrase pattern, then the keyword pattern, then the
  amount-before-keyword pattern; the first of them whose captured number (the comma made a
  period) parses to a value above 0 gives the total, and the fallback is not consulted.
  The total returned has no comma and a value above 0. The text
  \<open>Subtotal $10.00 Tax $1.00 Grand Total: $11.00\<close> gives \<open>11.00\<close>.
\<close>

theorem labeled_total_first_positive:
  "try_total_patterns (butlast totalPatterns) (cleanText txt) =
     (case captured_total total_phrase (cleanText txt) of
        Some t \<Rightarrow> Some t
      | None \<Rightarrow>
     (case captured_total total_keyword (cleanText txt) of
        Some t \<Rightarrow> Some t
      | None \<Rightarrow> captured_total amount_then_keyword (cleanText txt))) \<and>
   (\<forall>t. try_total_patterns (butlast totalPatterns) (cleanText txt) = Some t \<longrightarrow>
        extractTotal txt = Inr (Some t) \<and> positive (parseFloat t) \<and> CHR '','' \<notin> set t) \<and>
   extractTotal ''Subtotal $10.00 Tax $1.00 Grand Total: $11.00'' = Inr (Some ''11.00'')"
proof -
  have ex: "extractTotal ''Subtotal $10.00 Tax $1.00 Grand Total: $11.00'' = Inr (Some ''11.00'')"
    by code_simp
  have "extractTotal txt = Inr (Some t)"
    if "try_total_patterns (butlast totalPatterns) (cleanText txt) = Some t" for t
    using that by (simp add: extractTotal_def Let_def)
  then show ?thesis using ex labeled_total_sound labeled_total_cases by blast
qed

text \<open>
  The theorem at the text of the claim (the phrase pattern finds 11.00 although the keyword
  pattern would find 10.00) and at a text with a comma. In \<open>Total: 0.00 Amount 5,50\<close>
  the keyword pattern is passed over: its first match is worth 0.
\<close>

theorem labeled_total_first_positive_witness:
  "captured_total total_phrase (cleanText ''Subtotal $10.00 Tax $1.00 Grand Total: $11.00'') = Some ''11.00'' \<and>
   captured_total total_keyword (cleanText ''Subtotal $10.00 Tax $1.00 Grand Total: $11.00'') = Some ''10.00'' \<and>
   try_total_patterns (butlast totalPatterns) (cleanText ''Subtotal $10.00 Tax $1.00 Grand Total: $11.00'') = Some ''11.00'' \<and>
   extractTotal ''Subtotal $10.00 Tax $1.00 Grand Total: $11.00'' = Inr (Some ''11.00'') \<and>
   positive (parseFloat ''11.00'') \<and> CHR '','' \<notin> set ''11.00'' \<and>
   captured_total total_phrase (cleanText ''Total: 0.00 Amount 5,50'') = None \<and>
   exec total_keyword (cleanText ''Total: 0.00 Amount 5,50'') = Some \<lparr>m0 = ''Total: 0.00'', m1 = Some ''0.00''\<rparr> \<and>
   captured_total total_keyword (cleanText ''Total: 0.00 Amount 5,50'') = None \<and>
   captured_total total_phrase (cleanText ''Amount due: $ 5,50'') = Some ''5.50'' \<and>
   extractTotal ''Amount due: $ 5,50'' = Inr (Some ''5.50'')"
proof -
  have a: "captured_total total_phrase (cleanText ''Subtotal $10.00 Tax $1.00 Grand Total: $11.00'') = Some ''11.00''"
    "captured_total total_keyword (cleanText ''Subtotal $10.00 Tax $1.00 Grand Total: $11.00'') = Some ''10.00''"
    by code_simp+
  have b: "captured_total total_phrase (cleanText ''Total: 0.00 Amount 5,50'') = None"
    "exec total_keyword (cleanText ''Total: 0.00 Amount 5,50'') = Some \<lparr>m0 = ''Total: 0.00'', m1 = Some ''0.00''\<rparr>"
    "captured_total total_keyword (cleanText ''Total: 0.00 Amount 5,50'') = None"
    by code_simp+
  have c: "captured_total total_phrase (cleanText ''Amount due: $ 5,50'') = Some ''5.50''"
    by code_simp
  note A = labeled_total_first_positive [of "''Subtotal $10.00 Tax $1.00 Grand Total: $11.00''"]
  note C = labeled_total_first_positive [of "''Amount due: $ 5,50''"]
  have a1: "try_total_patterns (butlast totalPatterns)
      (cleanText ''Subtotal $10.00 Tax $1.00 Grand Total: $11.00'') = Some ''11.00''"
    using A a by simp
  have a2: "extractTotal ''Subtotal $10.00 Tax $1.00 Grand Total: $11.00'' = Inr (Some ''11.00'') \<and>
      positive (parseFloat ''11.00'') \<and> CHR '','' \<notin> set ''11.00''"
    using A a1 by blast
  have c1: "try_total_patterns (butlast totalPatterns) (cleanText ''Amount due: $ 5,50'') = Some ''5.50''"
    using C c by simp
  have c2: "extractTotal ''Amount due: $ 5,50'' = Inr (Some ''5.50'')"
    using C c1 by blast
  show ?thesis using a a1 a2 b c c2 by blast
qed

text \<open>
  Claim C7, as stated, does not hold: not every number behind a currency symbol is
  collected. The pattern of the fallback, \<open>/\$\s*(\d+(?:[,.]\d{1,2}))/g\<close>, asks for a separator
  and one or two fraction digits, so an amount without them is passed over. In
  \<open>$42 $7.50\<close> no label matches, the largest amount behind a currency symbol is 42, and the
  total returned is \<open>7.50\<close>.
\<close>

theorem whole_amount_is_not_collected:
  "try_total_patterns (butlast totalPatterns) (cleanText ''$42 $7.50'') = None \<and>
   spec_fallback_total (cleanText ''$42 $7.50'') = Some ''42'' \<and>
   currency_items (cleanText ''$42 $7.50'') = [\<lparr>item_value = ''7.50'', item_amount = Some (15 / 2)\<rparr>] \<and>
   extractTotal ''$42 $7.50'' = Inr (Some ''7.50'')"
  by code_simp

text \<open>
  Claim C7, amended. If no labeled total matched, total extraction collects every match of
  a currency symbol \<open>$\<close>, optional white space and a number with a separator (comma or
  period) and one or two fraction digits, in text order, the first comma of each made a
  period, so that each item reads digits, a period and one or two digits; an amount
  without fraction digits is not collected. Items whose value is not
  above 0 or not below 100000 are discarded. If none remains the total is unset;
  otherwise the total is the text of the item of largest value, the earliest one if
  several have that value. \<open>$250000.00\<close> alongside \<open>$42.00\<close> with no label gives \<open>42.00\<close>.
\<close>

theorem fallback_largest_plausible_amount:
  assumes "try_total_patterns (butlast totalPatterns) (cleanText txt) = None"
  shows "(\<forall>a\<in>set (currency_items (cleanText txt)).
       \<exists>ds fr. item_value a = ds @ CHR ''.'' # fr \<and> ds \<noteq> [] \<and> list_all digit ds \<and>
         list_all digit fr \<and> (length fr = 1 \<or> length fr = 2)) \<and>
    (filter plausible (currency_items (cleanText txt)) = [] \<longrightarrow> extractTotal txt = Inr None) \<and>
    (filter plausible (currency_items (cleanText txt)) \<noteq> [] \<longrightarrow>
       (\<exists>pre a post. filter plausible (currency_items (cleanText txt)) = pre @ a # post \<and>
          extractTotal txt = Inr (Some (item_value a)) \<and>
          (\<forall>b\<in>set pre. amount_of b < amount_of a) \<and>
          (\<forall>b\<in>set post. amount_of b \<le> amount_of a)))"
proof -
  let ?c = "filter plausible (currency_items (cleanText txt))"
  have ex: "extractTotal txt = largest_amount (cleanText txt)"
    using assms by (simp add: extractTotal_def Let_def)
  have "extractTotal txt = Inr None" if "?c = []"
    using that by (simp add: ex largest_amount_plausible sort_descending_def)
  moreover have "\<exists>pre a post. ?c = pre @ a # post \<and>
          extractTotal txt = Inr (Some (item_value a)) \<and>
          (\<forall>b\<in>set pre. amount_of b < amount_of a) \<and>
          (\<forall>b\<in>set post. amount_of b \<le> amount_of a)" if ne: "?c \<noteq> []"
  proof -
    let ?f = "\<lambda>a. - amount_of a"
    have "sort_key ?f ?c \<noteq> []" using ne by (simp add: sort_key_Nil_iff)
    then obtain h t where st: "sort_key ?f ?c = h # t" by (cases "sort_key ?f ?c") auto
    then have h: "hd (sort_key ?f ?c) = h" by simp
    from hd_sort_key[OF ne, of ?f] obtain pre post where
      c: "?c = pre @ h # post" and pre: "\<forall>b\<in>set pre. ?f h < ?f b"
      and post: "\<forall>b\<in>set post. ?f h \<le> ?f b" unfolding h by blast
    have "extractTotal txt = Inr (Some (item_value h))"
      by (simp add: ex largest_amount_plausible sort_descending_def st)
    then show ?thesis using c pre post by (intro exI[of _ pre] exI[of _ h] exI[of _ post]) auto
  qed
  moreover have "\<forall>a\<in>set (currency_items (cleanText txt)).
       \<exists>ds fr. item_value a = ds @ CHR ''.'' # fr \<and> ds \<noteq> [] \<and> list_all digit ds \<and>
         list_all digit fr \<and> (length fr = 1 \<or> length fr = 2)"
    using currency_items_value by blast
  ultimately show ?thesis by blast
qed

text \<open>The theorem at a text with an amount of 250000.00 and one of 42.00, and at a text
  whose only amount is 250000.00.\<close>

theorem fallback_largest_plausible_amount_witness:
  "try_total_patterns (butlast totalPatterns) (cleanText ''Ref $250000.00 Coffee $42.00'') = None \<and>
   currency_items (cleanText ''Ref $250000.00 Coffee $42.00'') =
     [\<lparr>item_value = ''250000.00'', item_amount = Some 250000\<rparr>,
      \<lparr>item_value = ''42.00'', item_amount = Some 42\<rparr>] \<and>
   filter plausible (currency_items (cleanText ''Ref $250000.00 Coffee $42.00'')) =
     [\<lparr>item_value = ''42.00'', item_amount = Some 42\<rparr>] \<and>
   extractTotal ''Ref $250000.00 Coffee $42.00'' = Inr (Some ''42.00'') \<and>
   try_total_patterns (butlast totalPatterns) (cleanText ''Account $250000.00'') = None \<and>
   filter plausible (currency_items (cleanText ''Account $250000.00'')) = [] \<and>
   extractTotal ''Account $250000.00'' = Inr None"
proof -
  have n: "try_total_patterns (butlast totalPatterns) (cleanText ''Ref $250000.00 Coffee $42.00'') = None"
    by code_simp
  have i: "currency_items (cleanText ''Ref $250000.00 Coffee $42.00'') =
     [\<lparr>item_value = ''250000.00'', item_amount = Some 250000\<rparr>,
      \<lparr>item_value = ''42.00'', item_amount = Some 42\<rparr>]"
    by code_simp
  have p: "filter plausible (currency_items (cleanText ''Ref $250000.00 Coffee $42.00'')) =
     [\<lparr>item_value = ''42.00'', item_amount = Some 42\<rparr>]"
    unfolding i by (simp add: plausible_def positive_def amount_of_def)
  note A = fallback_largest_plausible_amount [OF n]
  from A p obtain pre a post where
    c: "[\<lparr>item_value = ''42.00'', item_amount = Some (42::rat)\<rparr>] = pre @ a # post"
    and e: "extractTotal ''Ref $250000.00 Coffee $42.00'' = Inr (Some (item_value a))"
    by auto
  from c have "a = \<lparr>item_value = ''42.00'', item_amount = Some (42::rat)\<rparr>"
    by (cases pre) auto
  then have x: "extractTotal ''Ref $250000.00 Coffee $42.00'' = Inr (Some ''42.00'')"
    using e by simp
  have n2: "try_total_patterns (butlast totalPatterns) (cleanText ''Account $250000.00'') = None"
    by code_simp
  have i2: "currency_items (cleanText ''Account $250000.00'') =
     [\<lparr>item_value = ''250000.00'', item_amount = Some 250000\<rparr>]"
    by code_simp
  have p2: "filter plausible (currency_items (cleanText ''Account $250000.00'')) = []"
    unfolding i2 by (simp add: plausible_def positive_def amount_of_def)
  have x2: "extractTotal ''Account $250000.00'' = Inr None"
    using fallback_largest_plausible_amount [OF n2] p2 by simp
  show ?thesis using n i p x n2 p2 x2 by simp
qed

text \<open>
  Claim C8, as stated, does not hold: the loop over the two label patterns is the outer
  one and the loop over the lines the inner one, so every line is tried with the one-word
  labels (merchant, vendor, store, business, retailer, seller, company) before any line is
  tried with the phrases (invoice from, receipt from, sold by). In the two lines
  \<open>Sold by: Riverside Cafe\<close> and \<open>Store: Foo Mart\<close> the first line with a label is the first
  one, and the merchant returned is \<open>Foo Mart\<close>.
\<close>

theorem label_of_later_line_wins:
  "lines_of (''Sold by: Riverside Cafe'' @ [CHR 0x0A] @ ''Store: Foo Mart'') =
     [''Sold by: Riverside Cafe'', ''Store: Foo Mart''] \<and>
   captured_name merchant_phrase ''Sold by: Riverside Cafe'' = Some ''Riverside Cafe'' \<and>
   spec_labeled_merchant merchantPatterns
     (lines_of (''Sold by: Riverside Cafe'' @ [CHR 0x0A] @ ''Store: Foo Mart'')) = Some ''Riverside Cafe'' \<and>
   extractMerchant (''Sold by: Riverside Cafe'' @ [CHR 0x0A] @ ''Store: Foo Mart'') = Some ''Foo Mart''"
  by code_simp

text \<open>
  Claim C8, amended. In the labeled phase of merchant extraction the trimmed lines of
  length above 2 are scanned in line order for a one-word label, and the first line on
  which one captures a name fragment of length above 2 gives the merchant; only if no
  line does, the lines are scanned in line order for the phrases in the same way. The
  merchant is the fragment trimmed, the fragment being a piece of the line made of letters,
  digits, white space and \<open>&,.'-\<close>. A line \<open>Sold by: Riverside Cafe\<close> gives
  \<open>Riverside Cafe\<close> if no line captures a name behind a one-word label and no earlier line
  captures one behind a phrase.
\<close>

theorem labeled_merchant_pattern_order:
  "labeled_merchant merchantPatterns lines =
     (case List.map_filter (captured_name merchant_label) lines of
        n # others \<Rightarrow> Some n
      | [] \<Rightarrow>
     (case List.map_filter (captured_name merchant_phrase) lines of
        n # others \<Rightarrow> Some n
      | [] \<Rightarrow> None)) \<and>
   (\<forall>n. labeled_merchant merchantPatterns (lines_of txt) = Some n \<longrightarrow> extractMerchant txt = Some n) \<and>
   (\<forall>p line n. p \<in> set merchantPatterns \<and> captured_name p line = Some n \<longrightarrow>
      (\<exists>g. n = trim g \<and> length g > 2 \<and> list_all name_char g \<and> sublist g line)) \<and>
   (\<forall>pre post. lines_of txt = pre @ ''Sold by: Riverside Cafe'' # post \<and>
      List.map_filter (captured_name merchant_label) (lines_of txt) = [] \<and>
      List.map_filter (captured_name merchant_phrase) pre = []
      \<longrightarrow> extractMerchant txt = Some ''Riverside Cafe'')"
proof -
  have a: "extractMerchant txt = Some n"
    if "labeled_merchant merchantPatterns (lines_of txt) = Some n" for n
    using that by (simp add: extractMerchant_def Let_def)
  have b: "extractMerchant txt = Some ''Riverside Cafe''"
    if l: "lines_of txt = pre @ ''Sold by: Riverside Cafe'' # post"
      and n1: "List.map_filter (captured_name merchant_label) (lines_of txt) = []"
      and n2: "List.map_filter (captured_name merchant_phrase) pre = []" for pre post
  proof -
    have "List.map_filter (captured_name merchant_phrase) (lines_of txt) =
        ''Riverside Cafe'' # List.map_filter (captured_name merchant_phrase) post"
      unfolding l by (simp add: map_filter_app n2 map_filter_simps sold_by_line)
    then have "labeled_merchant merchantPatterns (lines_of txt) = Some ''Riverside Cafe''"
      by (simp add: labeled_merchant_cases n1)
    then show ?thesis by (rule a)
  qed
  show ?thesis using a b labeled_merchant_cases captured_name_sound by blast
qed

text \<open>The theorem at a text whose second line is \<open>Sold by: Riverside Cafe\<close>, and at the
  two lines above.\<close>

theorem labeled_merchant_pattern_order_witness:
  "lines_of (''Corner Shop'' @ [CHR 0x0A] @ ''Sold by: Riverside Cafe'' @ [CHR 0x0A] @ ''Thank you'') =
     [''Corner Shop''] @ ''Sold by: Riverside Cafe'' # [''Thank you''] \<and>
   List.map_filter (captured_name merchant_label)
     (lines_of (''Corner Shop'' @ [CHR 0x0A] @ ''Sold by: Riverside Cafe'' @ [CHR 0x0A] @ ''Thank you'')) = [] \<and>
   List.map_filter (captured_name merchant_phrase) [''Corner Shop''] = [] \<and>
   extractMerchant (''Corner Shop'' @ [CHR 0x0A] @ ''Sold by: Riverside Cafe'' @ [CHR 0x0A] @ ''Thank you'') =
     Some ''Riverside Cafe'' \<and>
   merchant_label \<in> set merchantPatterns \<and>
   captured_name merchant_label ''Store: Foo Mart'' = Some ''Foo Mart'' \<and>
   list_all name_char ''Foo Mart'' \<and> sublist ''Foo Mart'' ''Store: Foo Mart'' \<and>
   labeled_merchant merchantPatterns [''Sold by: Riverside Cafe'', ''Store: Foo Mart''] = Some ''Foo Mart''"
proof -
  let ?T = "''Corner Shop'' @ [CHR 0x0A] @ ''Sold by: Riverside Cafe'' @ [CHR 0x0A] @ ''Thank you''"
  have l: "lines_of ?T = [''Corner Shop''] @ ''Sold by: Riverside Cafe'' # [''Thank you'']"
    by code_simp
  have n1: "List.map_filter (captured_name merchant_label) (lines_of ?T) = []"
    by code_simp
  have n2: "List.map_filter (captured_name merchant_phrase) [''Corner Shop''] = []"
    by code_simp
  note A = labeled_merchant_pattern_order [of "[''Sold by: Riverside Cafe'', ''Store: Foo Mart'']" ?T]
  have x: "extractMerchant ?T = Some ''Riverside Cafe''"
    using A l n1 n2 by blast
  have c: "captured_name merchant_label ''Store: Foo Mart'' = Some ''Foo Mart''"
    "List.map_filter (captured_name merchant_label) [''Sold by: Riverside Cafe'', ''Store: Foo Mart''] = [''Foo Mart'']"
    by code_simp+
  have p: "merchant_label \<in> set merchantPatterns" by (simp add: merchantPatterns_def)
  have s: "list_all name_char ''Foo Mart''" "sublist ''Foo Mart'' ''Store: Foo Mart''"
    by code_simp+
  have m: "labeled_merchant merchantPatterns [''Sold by: Riverside Cafe'', ''Store: Foo Mart''] = Some ''Foo Mart''"
    using A c(2) by simp
  show ?thesis using l n1 n2 x c(1) p s m by blast
qed

text \<open>
  Claim C9, as stated, does not hold: the header scan also discards every line of length
  3 or less (the filter starts with \<open>line.length > 3\<close>), which is none of the four kinds of
  line the claim lists. The one-line text \<open>KFC\<close> has no label; its line is no date, amount,
  address or contact line and scores 5, yet the merchant is left unset.
\<close>

theorem three_letter_header_is_discarded:
  "lines_of ''KFC'' = [''KFC''] \<and>
   labeled_merchant merchantPatterns (lines_of ''KFC'') = None \<and>
   spec_candidate ''KFC'' \<and> score ''KFC'' = 5 \<and>
   spec_header_merchant ''KFC'' = Some ''KFC'' \<and>
   \<not> potential_merchant ''KFC'' \<and>
   extractMerchant ''KFC'' = None"
  by code_simp

text \<open>
  Claim C9, amended. If no label gave a merchant, the header scan takes the first 6 of the
  trimmed lines of length above 2 and keeps those of length above 3 that match none of
  the date, two-decimal amount, street-address and contact patterns. Each line kept is
  scored +4 if upper-casing leaves it unchanged (it has no small letter), +3 if it starts
  with a capital letter followed by a small letter, +2 if its length is above 7, +1 if its
  length is below 30, and -3 if it has three digits in a row. The merchant is the line of
  highest score, the earliest one among equals; it is unset if no line is kept. A first
  line \<open>ACME HARDWARE\<close> followed by an address line and a date line gives \<open>ACME HARDWARE\<close>.
\<close>

theorem header_merchant_highest_score:
  assumes "labeled_merchant merchantPatterns (lines_of txt) = None"
  shows "(filter potential_merchant (take 6 (lines_of txt)) = [] \<longrightarrow> extractMerchant txt = None) \<and>
    (filter potential_merchant (take 6 (lines_of txt)) \<noteq> [] \<longrightarrow>
       (\<exists>pre best post. filter potential_merchant (take 6 (lines_of txt)) = pre @ best # post \<and>
          extractMerchant txt = Some best \<and>
          (\<forall>l\<in>set pre. score l < score best) \<and>
          (\<forall>l\<in>set post. score l \<le> score best))) \<and>
    (\<forall>line. score line =
       (if list_all (\<lambda>c. \<not> has_upper_case c) line then 4 else 0) +
       (if \<exists>a b rest. line = a # b # rest \<and> upper_letter a \<and> lower_letter b then 3 else 0) +
       (if length line > 7 then 2 else 0) +
       (if length line < 30 then 1 else 0) -
       (if \<exists>u v w. line = u @ v @ w \<and> length v = 3 \<and> list_all digit v then 3 else 0))"
proof -
  let ?c = "filter potential_merchant (take 6 (lines_of txt))"
  let ?f = "\<lambda>line. - score line"
  have ex: "extractMerchant txt = header_merchant (lines_of txt)"
    using assms by (simp add: extractMerchant_def Let_def)
  have e: "extractMerchant txt = None" if "?c = []"
    using that by (simp add: ex header_merchant_cases)
  have n: "\<exists>pre best post. ?c = pre @ best # post \<and>
          extractMerchant txt = Some best \<and>
          (\<forall>l\<in>set pre. score l < score best) \<and>
          (\<forall>l\<in>set post. score l \<le> score best)" if ne: "?c \<noteq> []"
  proof -
    have "sort_key ?f ?c \<noteq> []" using ne by (simp add: sort_key_Nil_iff)
    then obtain h t where st: "sort_key ?f ?c = h # t" by (cases "sort_key ?f ?c") auto
    then have h: "hd (sort_key ?f ?c) = h" by simp
    from hd_sort_key[OF ne, of ?f] obtain pre post where
      c: "?c = pre @ h # post" and pre: "\<forall>b\<in>set pre. ?f h < ?f b"
      and post: "\<forall>b\<in>set post. ?f h \<le> ?f b" unfolding h by blast
    have "extractMerchant txt = Some h"
      by (simp add: ex header_merchant_cases st)
    then show ?thesis using c pre post by (intro exI[of _ pre] exI[of _ h] exI[of _ post]) auto
  qed
  have s: "score line =
       (if list_all (\<lambda>c. \<not> has_upper_case c) line then 4 else 0) +
       (if \<exists>a b rest. line = a # b # rest \<and> upper_letter a \<and> lower_letter b then 3 else 0) +
       (if length line > 7 then 2 else 0) +
       (if length line < 30 then 1 else 0) -
       (if \<exists>u v w. line = u @ v @ w \<and> length v = 3 \<and> list_all digit v then 3 else 0)" for line
    unfolding score_def is_own_upper_case_def test_title_case test_digit_run ..
  show ?thesis using e n s by blast
qed

text \<open>The theorem at the text of the claim, at two lines of equal score, and at a text
  with no line to keep.\<close>

theorem header_merchant_highest_score_witness:
  "labeled_merchant merchantPatterns
     (lines_of (''ACME HARDWARE'' @ [CHR 0x0A] @ ''123 Main Street'' @ [CHR 0x0A] @ ''03/14/2024'')) = None \<and>
   filter potential_merchant
     (take 6 (lines_of (''ACME HARDWARE'' @ [CHR 0x0A] @ ''123 Main Street'' @ [CHR 0x0A] @ ''03/14/2024''))) =
     [''ACME HARDWARE''] \<and>
   score ''ACME HARDWARE'' = 7 \<and>
   extractMerchant (''ACME HARDWARE'' @ [CHR 0x0A] @ ''123 Main Street'' @ [CHR 0x0A] @ ''03/14/2024'') =
     Some ''ACME HARDWARE'' \<and>
   labeled_merchant merchantPatterns (lines_of (''Main Bakery'' @ [CHR 0x0A] @ ''Fine Breads'')) = None \<and>
   filter potential_merchant (take 6 (lines_of (''Main Bakery'' @ [CHR 0x0A] @ ''Fine Breads''))) =
     [''Main Bakery'', ''Fine Breads''] \<and>
   score ''Main Bakery'' = 6 \<and> score ''Fine Breads'' = 6 \<and>
   extractMerchant (''Main Bakery'' @ [CHR 0x0A] @ ''Fine Breads'') = Some ''Main Bakery'' \<and>
   labeled_merchant merchantPatterns (lines_of ''KFC'') = None \<and>
   filter potential_merchant (take 6 (lines_of ''KFC'')) = [] \<and>
   extractMerchant ''KFC'' = None"
proof -
  let ?A = "''ACME HARDWARE'' @ [CHR 0x0A] @ ''123 Main Street'' @ [CHR 0x0A] @ ''03/14/2024''"
  let ?B = "''Main Bakery'' @ [CHR 0x0A] @ ''Fine Breads''"
  have a1: "labeled_merchant merchantPatterns (lines_of ?A) = None" by code_simp
  have a2: "filter potential_merchant (take 6 (lines_of ?A)) = [''ACME HARDWARE'']" by code_simp
  have a3: "score ''ACME HARDWARE'' = 7" by code_simp
  from header_merchant_highest_score [OF a1] a2 obtain pre best post where
    c: "[''ACME HARDWARE''] = pre @ best # post" and e: "extractMerchant ?A = Some best"
    by auto
  from c have "best = ''ACME HARDWARE''" by (cases pre) auto
  then have a4: "extractMerchant ?A = Some ''ACME HARDWARE''" using e by simp
  have b1: "labeled_merchant merchantPatterns (lines_of ?B) = None" by code_simp
  have b2: "filter potential_merchant (take 6 (lines_of ?B)) = [''Main Bakery'', ''Fine Breads'']"
    by code_simp
  have b3: "score ''Main Bakery'' = 6" "score ''Fine Breads'' = 6" by code_simp+
  from header_merchant_highest_score [OF b1] b2 obtain pre' best' post' where
    c': "[''Main Bakery'', ''Fine Breads''] = pre' @ best' # post'"
    and e': "extractMerchant ?B = Some best'"
    and l': "\<forall>l\<in>set pre'. score l < score best'"
    by auto
  have "best' = ''Main Bakery''"
  proof (cases pre')
    case Nil
    then show ?thesis using c' by simp
  next
    case (Cons x xs)
    then have x: "x = ''Main Bakery''" and r: "[''Fine Breads''] = xs @ best' # post'"
      using c' by auto
    from r have "best' = ''Fine Breads''" by (cases xs) auto
    then have "score ''Main Bakery'' < score ''Fine Breads''" using l' Cons x by simp
    then show ?thesis using b3 by simp
  qed
  then have b4: "extractMerchant ?B = Some ''Main Bakery''" using e' by simp
  have k1: "labeled_merchant merchantPatterns (lines_of ''KFC'') = None" by code_simp
  have k2: "filter potential_merchant (take 6 (lines_of ''KFC'')) = []" by code_simp
  have k3: "extractMerchant ''KFC'' = None"
    using header_merchant_highest_score [OF k1] k2 by simp
  show ?thesis using a1 a2 a3 a4 b1 b2 b3 b4 k1 k2 k3 by simp
qed

text \<open>
  Claim C10. The label patterns of the total have no word boundary, so a keyword also
  matches inside a longer word. In \<open>Subtotal: $10.00\<close> no keyword stands at the start of a
  word (the keyword pattern preceded by \<open>\b\<close> finds nothing) and the phrase pattern finds
  nothing, yet the keyword pattern matches from the \<open>total\<close> inside \<open>Subtotal\<close> on, and the
  labeled phase returns \<open>10.00\<close>.
\<close>

theorem subtotal_is_read_as_total:
  "cleanText ''Subtotal: $10.00'' = ''Subtotal: $10.00'' \<and>
   exec (Seq WordBoundary total_keyword) ''Subtotal: $10.00'' = None \<and>
   exec total_phrase ''Subtotal: $10.00'' = None \<and>
   exec total_keyword ''Subtotal: $10.00'' = Some \<lparr>m0 = ''total: $10.00'', m1 = Some ''10.00''\<rparr> \<and>
   try_total_patterns (butlast totalPatterns) ''Subtotal: $10.00'' = Some ''10.00'' \<and>
   extractTotal ''Subtotal: $10.00'' = Inr (Some ''10.00'')"
  by code_simp

end
